theory Spec2Isabelle
  imports Complex_Main "HOL-Library.Code_Target_Nat"
begin

section \<open>Double-precision numbers\<close>

text \<open>
  The code computes on C++ \<^verbatim>\<open>double\<close>, the binary64 format: a finite value is a real
  number with a 53-bit significand and an exponent between \<open>- 1022\<close> and \<open>1023\<close>, and
  there are two infinities and NaN. The result of an arithmetic operation is the exact
  result rounded to the nearest such number, a tie going to the even significand; it
  is an infinity when the rounded magnitude reaches \<open>2^1024\<close>, and zero when the exact
  result is at most \<open>2^-1075\<close>. There is one zero, read as \<^verbatim>\<open>+0\<close>. Equality of two
  values of this type is identity of values; it agrees with the C++ comparison
  \<^verbatim>\<open>v == 1\<close> used by the code, since 1 is neither NaN nor zero.
\<close>

datatype double = Finite real | PInf | NInf | NaN

text \<open>Rounding a real to the nearest integer, a tie to the even one.\<close>

definition round_half_even :: "real \<Rightarrow> int" where
  "round_half_even q =
     (let f = \<lfloor>q\<rfloor>; d = q - of_int f
      in if d < 1 / 2 then f else if 1 / 2 < d then f + 1 else if even f then f else f + 1)"

text \<open>
  The binary exponent of a positive real, kept between \<open>- 1022\<close> (below, the numbers are
  subnormal and share that exponent) and \<open>1023\<close>: halve a number from 1 on, double a
  number below 1.
\<close>

fun scale_down :: "nat \<Rightarrow> real \<Rightarrow> int" where
  "scale_down 0 a = 0"
| "scale_down (Suc n) a = (if 2 \<le> a then scale_down n (a / 2) + 1 else 0)"

fun scale_up :: "nat \<Rightarrow> real \<Rightarrow> int" where
  "scale_up 0 a = 0"
| "scale_up (Suc n) a = (if a < 1 then scale_up n (2 * a) - 1 else 0)"

definition exponent :: "real \<Rightarrow> int" where
  "exponent a = (if 1 \<le> a then scale_down 1023 a else scale_up 1022 a)"

definition two_to :: "int \<Rightarrow> real" where
  "two_to e = (if 0 \<le> e then 2 ^ nat e else 1 / 2 ^ nat (- e))"

text \<open>
  The magnitude rounded to 53 significant bits: a multiple of the unit in the last
  place, \<open>2^(e - 52)\<close> for the exponent \<open>e\<close>.
\<close>

definition round_mag :: "real \<Rightarrow> real" where
  "round_mag a = (let u = two_to (exponent a - 52) in of_int (round_half_even (a / u)) * u)"

definition round_double :: "real \<Rightarrow> double" where
  "round_double x =
     (if x = 0 then Finite 0
      else
        let r = round_mag \<bar>x\<bar>
        in if two_to 1024 \<le> r then (if 0 < x then PInf else NInf)
           else Finite (if 0 < x then r else - r))"

text \<open>The arithmetic of the type: the exact result, rounded.\<close>

instantiation double :: "{zero, one, plus, uminus, minus, times, inverse}"
begin

definition zero_double :: double where
  "zero_double = Finite 0"

definition one_double :: double where
  "one_double = Finite 1"

fun plus_double :: "double \<Rightarrow> double \<Rightarrow> double" where
  "plus_double NaN y = NaN"
| "plus_double x NaN = NaN"
| "plus_double PInf NInf = NaN"
| "plus_double NInf PInf = NaN"
| "plus_double PInf y = PInf"
| "plus_double x PInf = PInf"
| "plus_double NInf y = NInf"
| "plus_double x NInf = NInf"
| "plus_double (Finite a) (Finite b) = round_double (a + b)"

fun uminus_double :: "double \<Rightarrow> double" where
  "uminus_double (Finite a) = Finite (- a)"
| "uminus_double PInf = NInf"
| "uminus_double NInf = PInf"
| "uminus_double NaN = NaN"

definition minus_double :: "double \<Rightarrow> double \<Rightarrow> double" where
  "minus_double x y = x + (- y)"

fun times_double :: "double \<Rightarrow> double \<Rightarrow> double" where
  "times_double NaN y = NaN"
| "times_double x NaN = NaN"
| "times_double (Finite a) (Finite b) = round_double (a * b)"
| "times_double (Finite a) PInf = (if a = 0 then NaN else if 0 < a then PInf else NInf)"
| "times_double (Finite a) NInf = (if a = 0 then NaN else if 0 < a then NInf else PInf)"
| "times_double PInf (Finite b) = (if b = 0 then NaN else if 0 < b then PInf else NInf)"
| "times_double NInf (Finite b) = (if b = 0 then NaN else if 0 < b then NInf else PInf)"
| "times_double PInf PInf = PInf"
| "times_double PInf NInf = NInf"
| "times_double NInf PInf = NInf"
| "times_double NInf NInf = PInf"

fun divide_double :: "double \<Rightarrow> double \<Rightarrow> double" where
  "divide_double NaN y = NaN"
| "divide_double x NaN = NaN"
| "divide_double (Finite a) (Finite b) =
     (if b \<noteq> 0 then round_double (a / b)
      else if a = 0 then NaN else if 0 < a then PInf else NInf)"
| "divide_double (Finite a) PInf = Finite 0"
| "divide_double (Finite a) NInf = Finite 0"
| "divide_double PInf (Finite b) = (if 0 \<le> b then PInf else NInf)"
| "divide_double NInf (Finite b) = (if 0 \<le> b then NInf else PInf)"
| "divide_double PInf y = NaN"
| "divide_double NInf y = NaN"

definition inverse_double :: "double \<Rightarrow> double" where
  "inverse_double x = divide (Finite 1) x"

instance ..

end

text \<open>
  The C library's \<^verbatim>\<open>exp\<close>, with the values the C standard fixes: 1 at zero, the
  infinite arguments and NaN. Elsewhere it is taken as the rounded exponential; no
  property below uses a value there.
\<close>

fun dexp :: "double \<Rightarrow> double" where
  "dexp (Finite a) = round_double (exp a)"
| "dexp PInf = PInf"
| "dexp NInf = Finite 0"
| "dexp NaN = NaN"

section \<open>Vectors and the three kernels\<close>

type_synonym VectorXd = "double list"

text \<open>
  \<^verbatim>\<open>x_i.transpose() * y_j\<close>: the products of the coefficients, added up, here in the
  order of the indices. Eigen may add them in another order, which can change a sum
  that rounds; the properties below are about sums that do not round, or hold for
  every order. Eigen requires both vectors to have the same size; \<open>gram_matrix\<close> only
  passes columns of two matrices with the same number of rows.
\<close>

definition dot :: "VectorXd \<Rightarrow> VectorXd \<Rightarrow> double" where
  "dot x y = foldl (+) 0 (map2 (*) x y)"

text \<open>\<^verbatim>\<open>(x_i - y_j).array().square().sum()\<close>, under the same requirement on the sizes.\<close>

definition square_sum_diff :: "VectorXd \<Rightarrow> VectorXd \<Rightarrow> double" where
  "square_sum_diff x y = foldl (+) 0 (map (\<lambda>d. d * d) (map2 (-) x y))"

definition linear_kernel_k :: "double \<Rightarrow> VectorXd \<Rightarrow> VectorXd \<Rightarrow> double" where
  "linear_kernel_k c x_i y_j = dot x_i y_j + c"

text \<open>
  The C library's \<^verbatim>\<open>pow\<close> is not part of the repository and no property below depends
  on its values: it is the parameter \<open>c_pow\<close>.
\<close>

definition polynomial_kernel_k ::
  "(double \<Rightarrow> double \<Rightarrow> double) \<Rightarrow> double \<Rightarrow> double \<Rightarrow> double \<Rightarrow> VectorXd \<Rightarrow> VectorXd \<Rightarrow> double" where
  "polynomial_kernel_k c_pow a c d x_i y_j =
     (let dt = dot x_i y_j;
          base = a * dt + c
      in c_pow base d)"

definition gaussian_kernel_k :: "double \<Rightarrow> VectorXd \<Rightarrow> VectorXd \<Rightarrow> double" where
  "gaussian_kernel_k s x_i y_j =
     dexp (Finite (- 1) * square_sum_diff x_i y_j / (Finite 2 * s * s))"

text \<open>The class hierarchy: a kernel object is its variant with its hyperparameters.\<close>

datatype kernel =
    linear_kernel double
  | polynomial_kernel double double double
  | gaussian_kernel double

text \<open>The virtual method \<^verbatim>\<open>k\<close>, dispatched on the variant.\<close>

fun kernel_k :: "(double \<Rightarrow> double \<Rightarrow> double) \<Rightarrow> kernel \<Rightarrow> VectorXd \<Rightarrow> VectorXd \<Rightarrow> double" where
  "kernel_k c_pow (linear_kernel c) x_i y_j = linear_kernel_k c x_i y_j"
| "kernel_k c_pow (polynomial_kernel a c d) x_i y_j = polynomial_kernel_k c_pow a c d x_i y_j"
| "kernel_k c_pow (gaussian_kernel s) x_i y_j = gaussian_kernel_k s x_i y_j"

section \<open>Matrices\<close>

text \<open>
  A \<^verbatim>\<open>MatrixXd\<close>: its dimensions and its coefficients in column-major order, the
  coefficient of row \<open>i\<close> and column \<open>j\<close> at position \<open>i + j * rows\<close>. Eigen's dimensions
  and indices have the 64-bit type \<^verbatim>\<open>Index\<close>; the dimensions of a matrix are natural
  numbers here.
\<close>

record MatrixXd =
  rows :: nat
  cols :: nat
  coeffs :: "double list"

text \<open>The invariant of the class: as many coefficients as the dimensions say.\<close>

definition wf_matrix :: "MatrixXd \<Rightarrow> bool" where
  "wf_matrix A = (length (coeffs A) = rows A * cols A)"

definition msize :: "MatrixXd \<Rightarrow> nat" where
  "msize A = rows A * cols A"

datatype error = InvalidArgument | OutOfBounds | ShapeMismatch | InvalidSize

definition and_then :: "error + 'a \<Rightarrow> ('a \<Rightarrow> error + 'b) \<Rightarrow> error + 'b" where
  "and_then r f = (case r of Inl e \<Rightarrow> Inl e | Inr v \<Rightarrow> f v)"

text \<open>
  Element access. An index outside the matrix is undefined behaviour in C++ (an
  assertion failure in a debug build): the error \<open>OutOfBounds\<close>.
\<close>

definition coeff :: "MatrixXd \<Rightarrow> int \<Rightarrow> int \<Rightarrow> error + double" where
  "coeff A i j =
     (if 0 \<le> i \<and> i < int (rows A) \<and> 0 \<le> j \<and> j < int (cols A)
      then Inr (coeffs A ! (nat i + nat j * rows A))
      else Inl OutOfBounds)"

definition set_coeff :: "MatrixXd \<Rightarrow> int \<Rightarrow> int \<Rightarrow> double \<Rightarrow> error + MatrixXd" where
  "set_coeff A i j v =
     (if 0 \<le> i \<and> i < int (rows A) \<and> 0 \<le> j \<and> j < int (cols A)
      then Inr (A\<lparr>coeffs := (coeffs A)[nat i + nat j * rows A := v]\<rparr>)
      else Inl OutOfBounds)"

text \<open>Access by one index, \<^verbatim>\<open>result(idx)\<close>: the position in the column-major storage.\<close>

definition coeff_at :: "MatrixXd \<Rightarrow> int \<Rightarrow> error + double" where
  "coeff_at A idx =
     (if 0 \<le> idx \<and> idx < int (msize A)
      then Inr (coeffs A ! nat idx)
      else Inl OutOfBounds)"

definition set_coeff_at :: "MatrixXd \<Rightarrow> int \<Rightarrow> double \<Rightarrow> error + MatrixXd" where
  "set_coeff_at A idx v =
     (if 0 \<le> idx \<and> idx < int (msize A)
      then Inr (A\<lparr>coeffs := (coeffs A)[nat idx := v]\<rparr>)
      else Inl OutOfBounds)"

text \<open>\<^verbatim>\<open>X.col(j)\<close>: the \<open>rows X\<close> coefficients stored from position \<open>j * rows X\<close>.\<close>

definition col :: "MatrixXd \<Rightarrow> int \<Rightarrow> error + VectorXd" where
  "col A j =
     (if 0 \<le> j \<and> j < int (cols A)
      then Inr (take (rows A) (drop (nat j * rows A) (coeffs A)))
      else Inl OutOfBounds)"

text \<open>
  \<^verbatim>\<open>int M = X.cols()\<close> narrows the 64-bit column count to the 32-bit \<^verbatim>\<open>int\<close>: the value
  modulo \<open>2^32\<close>, read as a signed number. Up to \<open>INT_MAX\<close> nothing changes.
\<close>

definition INT_MAX :: nat where
  "INT_MAX = 2147483647"

definition to_int :: "nat \<Rightarrow> int" where
  "to_int n =
     (let m = int n mod 4294967296
      in if m < 2147483648 then m else m - 4294967296)"

text \<open>
  \<^verbatim>\<open>MatrixXd(M,N)\<close> allocates without initialising: the coefficients are whatever the
  memory \<open>mem\<close> holds. A negative dimension is refused (an assertion failure in a debug
  build, a failed allocation otherwise): the error \<open>InvalidSize\<close>.
\<close>

definition MatrixXd_alloc :: "(nat \<Rightarrow> double) \<Rightarrow> int \<Rightarrow> int \<Rightarrow> error + MatrixXd" where
  "MatrixXd_alloc mem m n =
     (if m < 0 \<or> n < 0 then Inl InvalidSize
      else Inr \<lparr>rows = nat m, cols = nat n, coeffs = map mem [0..<nat m * nat n]\<rparr>)"

text \<open>\<^verbatim>\<open>MatrixXd::Identity(m,n)\<close>: one where the row is the column, zero elsewhere.\<close>

definition Identity :: "nat \<Rightarrow> nat \<Rightarrow> MatrixXd" where
  "Identity m n =
     \<lparr>rows = m, cols = n,
      coeffs = map (\<lambda>idx. if idx mod m = idx div m then 1 else 0) [0..<m * n]\<rparr>"

text \<open>A scalar times a matrix, and the sum of two matrices, which Eigen asserts to have
  the same dimensions.\<close>

definition smul :: "double \<Rightarrow> MatrixXd \<Rightarrow> MatrixXd" where
  "smul s A = A\<lparr>coeffs := map (\<lambda>v. s * v) (coeffs A)\<rparr>"

definition madd :: "MatrixXd \<Rightarrow> MatrixXd \<Rightarrow> error + MatrixXd" where
  "madd A B =
     (if rows A = rows B \<and> cols A = cols B
      then Inr (A\<lparr>coeffs := map2 (+) (coeffs A) (coeffs B)\<rparr>)
      else Inl ShapeMismatch)"

section \<open>The Gram matrix\<close>

text \<open>
  The loops of \<open>gram_matrix\<close>: \<open>j\<close> runs from 0 up to \<open>N\<close> inside, \<open>i\<close> from 0 up to \<open>M\<close>
  outside; the body is \<^verbatim>\<open>result(i,j) = this->k(X.col(i),Y.col(j))\<close>, with \<open>kf\<close> the
  method \<^verbatim>\<open>k\<close> of the kernel object. The overloads that take \<^verbatim>\<open>Map<MatrixXd>\<close> copy
  their arguments into matrices and call the functions below.
\<close>

fun inner_loop ::
  "(VectorXd \<Rightarrow> VectorXd \<Rightarrow> double) \<Rightarrow> MatrixXd \<Rightarrow> MatrixXd \<Rightarrow> nat \<Rightarrow> nat list \<Rightarrow> MatrixXd
     \<Rightarrow> error + MatrixXd" where
  "inner_loop kf X Y i [] result = Inr result"
| "inner_loop kf X Y i (j # js) result =
     and_then (col X (int i)) (\<lambda>x_i.
     and_then (col Y (int j)) (\<lambda>y_j.
     and_then (set_coeff result (int i) (int j) (kf x_i y_j)) (\<lambda>result'.
     inner_loop kf X Y i js result')))"

fun outer_loop ::
  "(VectorXd \<Rightarrow> VectorXd \<Rightarrow> double) \<Rightarrow> MatrixXd \<Rightarrow> MatrixXd \<Rightarrow> int \<Rightarrow> nat list \<Rightarrow> MatrixXd
     \<Rightarrow> error + MatrixXd" where
  "outer_loop kf X Y N [] result = Inr result"
| "outer_loop kf X Y N (i # is) result =
     and_then (inner_loop kf X Y i [0..<nat N] result) (\<lambda>result'.
     outer_loop kf X Y N is result')"

definition gram_matrix ::
  "(nat \<Rightarrow> double) \<Rightarrow> (VectorXd \<Rightarrow> VectorXd \<Rightarrow> double) \<Rightarrow> MatrixXd \<Rightarrow> MatrixXd
     \<Rightarrow> error + MatrixXd" where
  "gram_matrix mem kf X Y =
     (if rows X \<noteq> rows Y then Inl InvalidArgument
      else
        let M = to_int (cols X);
            N = to_int (cols Y)
        in and_then (MatrixXd_alloc mem M N) (\<lambda>result.
           outer_loop kf X Y N [0..<nat M] result))"

text \<open>
  \<open>gram_matrix_stable\<close>. The constant \<^verbatim>\<open>1e-3\<close> is the double nearest to \<open>1/1000\<close>. The
  conditions of the first and of the third branch are conjunctions that C++ evaluates
  left to right, reading the coefficient only when the left part holds. In the second
  branch Eigen compares the dimensions of the two operands of the sum before it
  computes a coefficient of the identity.
\<close>

definition is_one_by_one_of_one :: "MatrixXd \<Rightarrow> error + bool" where
  "is_one_by_one_of_one result =
     (if msize result = 1
      then and_then (coeff result 0 0) (\<lambda>v. Inr (v = 1))
      else Inr False)"

definition is_vector_ending_in_one :: "MatrixXd \<Rightarrow> error + bool" where
  "is_vector_ending_in_one result =
     (if cols result = 1 \<or> rows result = 1
      then and_then (coeff_at result (int (msize result) - 1)) (\<lambda>v. Inr (v = 1))
      else Inr False)"

definition gram_matrix_stable ::
  "(nat \<Rightarrow> double) \<Rightarrow> (VectorXd \<Rightarrow> VectorXd \<Rightarrow> double) \<Rightarrow> MatrixXd \<Rightarrow> MatrixXd
     \<Rightarrow> error + MatrixXd" where
  "gram_matrix_stable mem kf X Y =
     (let stability = round_double (1 / 1000) in
      and_then (gram_matrix mem kf X Y) (\<lambda>result.
      and_then (is_one_by_one_of_one result) (\<lambda>b1.
        if b1 then
          and_then (coeff result 0 0) (\<lambda>v. set_coeff result 0 0 (v + stability))
        else if 1 < rows result \<and> 1 < cols result then
          (if rows result = cols X \<and> cols result = cols Y
           then madd result (smul stability (Identity (cols X) (cols Y)))
           else Inl ShapeMismatch)
        else
          and_then (is_vector_ending_in_one result) (\<lambda>b3.
            if b3 then
              and_then (coeff_at result (int (msize result) - 1)) (\<lambda>v.
                set_coeff_at result (int (msize result) - 1) (v + stability))
            else Inr result))))"

section \<open>Vocabulary of the properties\<close>

text \<open>The coefficient of row \<open>i\<close> and column \<open>j\<close>, for stating properties.\<close>

definition entry :: "MatrixXd \<Rightarrow> nat \<Rightarrow> nat \<Rightarrow> double" where
  "entry A i j = coeffs A ! (i + j * rows A)"

text \<open>Column \<open>j\<close> of a matrix, coefficient by coefficient.\<close>

definition column :: "MatrixXd \<Rightarrow> nat \<Rightarrow> VectorXd" where
  "column A j = map (\<lambda>r. entry A r j) [0..<rows A]"

text \<open>What \<open>col\<close> returns for a column index in range.\<close>

definition stored_column :: "MatrixXd \<Rightarrow> nat \<Rightarrow> VectorXd" where
  "stored_column A j = take (rows A) (drop (j * rows A) (coeffs A))"

text \<open>
  The matrix of all kernel values, in column-major order: what the loops of
  \<open>gram_matrix\<close> are shown to compute.
\<close>

definition gram_of :: "(VectorXd \<Rightarrow> VectorXd \<Rightarrow> double) \<Rightarrow> MatrixXd \<Rightarrow> MatrixXd \<Rightarrow> MatrixXd" where
  "gram_of kf X Y =
     \<lparr>rows = cols X, cols = cols Y,
      coeffs = map (\<lambda>idx. kf (stored_column X (idx mod cols X)) (stored_column Y (idx div cols X)))
                 [0..<cols X * cols Y]\<rparr>"

text \<open>
  A real that is a double, so that rounding leaves it as it is; and a value of the
  type that the arithmetic can produce.
\<close>

definition representable :: "real \<Rightarrow> bool" where
  "representable r = (round_double r = Finite r)"

definition is_double :: "double \<Rightarrow> bool" where
  "is_double v = (case v of Finite r \<Rightarrow> representable r | _ \<Rightarrow> True)"

text \<open>
  The matrices of the examples: two orthonormal vectors as columns; the same two
  vectors scaled by \<open>2^30\<close>; a single one-dimensional sample; three one-dimensional
  samples; no sample of dimension 1; one and no sample of dimension 2; \<open>2^32\<close> samples
  and one sample of dimension 0, which have no coefficient.
\<close>

definition orthonormal_X :: MatrixXd where
  "orthonormal_X = \<lparr>rows = 2, cols = 2, coeffs = [Finite 1, Finite 0, Finite 0, Finite 1]\<rparr>"

definition scaled_X :: MatrixXd where
  "scaled_X =
     \<lparr>rows = 2, cols = 2,
      coeffs = [Finite 1073741824, Finite 0, Finite 0, Finite 1073741824]\<rparr>"

definition row_X :: MatrixXd where
  "row_X = \<lparr>rows = 1, cols = 1, coeffs = [Finite 1]\<rparr>"

definition row_Y :: MatrixXd where
  "row_Y = \<lparr>rows = 1, cols = 3, coeffs = [Finite 2, Finite 3, Finite 1]\<rparr>"

definition empty_X :: MatrixXd where
  "empty_X = \<lparr>rows = 1, cols = 0, coeffs = []\<rparr>"



definition wide_X :: MatrixXd where
  "wide_X = \<lparr>rows = 0, cols = 4294967296, coeffs = []\<rparr>"

definition point_Y :: MatrixXd where
  "point_Y = \<lparr>rows = 0, cols = 1, coeffs = []\<rparr>"

text \<open>A content of the fresh storage, for the examples.\<close>

definition zero_mem :: "nat \<Rightarrow> double" where
  "zero_mem i = Finite 0"

section \<open>Facts of rounding\<close>

text \<open>Powers of two, and the exponent that the search finds.\<close>

lemma two_to_powr: "two_to e = 2 powr (real_of_int e)"
  by (simp add: two_to_def powr_int)

lemma two_to_pos: "0 < two_to e"
  by (simp add: two_to_powr)

lemma two_to_add: "two_to (a + b) = two_to a * two_to b"
  by (simp add: two_to_powr powr_add)

lemma two_to_Suc: "two_to (e + 1) = 2 * two_to e"
  using two_to_add [of e 1] by (simp add: two_to_def)

lemma two_to_pred: "two_to (e - 1) = two_to e / 2"
  using two_to_Suc [of "e - 1"] by simp

lemma two_to_less_iff: "two_to a < two_to b \<longleftrightarrow> a < b"
  by (simp add: two_to_powr)

lemma two_to_le_iff: "two_to a \<le> two_to b \<longleftrightarrow> a \<le> b"
  by (simp add: two_to_powr)

lemma two_to_nat: "two_to (int n) = 2 ^ n"
  by (simp add: two_to_def)

lemma scale_down_spec:
  "1 \<le> a \<Longrightarrow> 0 \<le> scale_down n a \<and> scale_down n a \<le> int n \<and> two_to (scale_down n a) \<le> a \<and>
     (a < two_to (int n + 1) \<longrightarrow> a < two_to (scale_down n a + 1))"
proof (induction n arbitrary: a)
  case 0
  then show ?case by (simp add: two_to_def)
next
  case (Suc n)
  show ?case
  proof (cases "2 \<le> a")
    case True
    define e where "e = scale_down n (a / 2)"
    have "1 \<le> a / 2" using True by simp
    from Suc.IH [OF this]
    have ih: "0 \<le> e" "e \<le> int n" "two_to e \<le> a / 2"
      "a / 2 < two_to (int n + 1) \<longrightarrow> a / 2 < two_to (e + 1)"
      by (simp_all add: e_def)
    have sd: "scale_down (Suc n) a = e + 1" using True by (simp add: e_def)
    have "two_to (e + 1) \<le> a" using ih(3) by (simp add: two_to_Suc)
    moreover have "a < two_to (e + 1 + 1)" if "a < two_to (int (Suc n) + 1)"
    proof -
      have "int (Suc n) + 1 = (int n + 1) + 1" by simp
      then have "a < 2 * two_to (int n + 1)" using that by (simp only: two_to_Suc)
      then have "a / 2 < two_to (e + 1)" using ih(4) by simp
      then show ?thesis using two_to_Suc [of "e + 1"] by (simp add: field_simps)
    qed
    ultimately show ?thesis using ih(1,2) unfolding sd by simp
  next
    case False
    then show ?thesis using Suc.prems by (simp add: two_to_def)
  qed
qed

lemma scale_up_spec:
  "0 < a \<Longrightarrow> a < 2 \<Longrightarrow> - int n \<le> scale_up n a \<and> scale_up n a \<le> 0 \<and>
     (two_to (- int n) \<le> a \<longrightarrow> two_to (scale_up n a) \<le> a \<and> a < two_to (scale_up n a + 1)) \<and>
     (a < two_to (- int n) \<longrightarrow> scale_up n a = - int n)"
proof (induction n arbitrary: a)
  case 0
  then show ?case by (simp add: two_to_def)
next
  case (Suc n)
  show ?case
  proof (cases "a < 1")
    case True
    define e where "e = scale_up n (2 * a)"
    have "0 < 2 * a" "2 * a < 2" using True Suc.prems by simp_all
    from Suc.IH [OF this]
    have ih: "- int n \<le> e" "e \<le> 0"
      "two_to (- int n) \<le> 2 * a \<longrightarrow> two_to e \<le> 2 * a \<and> 2 * a < two_to (e + 1)"
      "2 * a < two_to (- int n) \<longrightarrow> e = - int n"
      by (simp_all add: e_def)
    have su: "scale_up (Suc n) a = e - 1" using True by (simp add: e_def)
    have neg: "- int (Suc n) = - int n - 1" by simp
    have t1: "two_to (- int (Suc n)) = two_to (- int n) / 2"
      unfolding neg by (rule two_to_pred)
    have t2: "two_to (e - 1) = two_to e / 2" by (rule two_to_pred)
    have t3: "two_to (e - 1 + 1) = two_to (e + 1) / 2"
      using two_to_Suc [of e] by simp
    have a: "two_to (e - 1) \<le> a \<and> a < two_to (e - 1 + 1)" if "two_to (- int (Suc n)) \<le> a"
    proof -
      have "two_to (- int n) \<le> 2 * a" using that unfolding t1 by simp
      then have "two_to e \<le> 2 * a \<and> 2 * a < two_to (e + 1)" using ih(3) by simp
      then show ?thesis unfolding t2 t3 by simp
    qed
    have b: "e - 1 = - int (Suc n)" if "a < two_to (- int (Suc n))"
    proof -
      have "2 * a < two_to (- int n)" using that unfolding t1 by simp
      then show ?thesis using ih(4) by simp
    qed
    show ?thesis unfolding su using ih(1,2) a b by simp
  next
    case False
    then have su: "scale_up (Suc n) a = 0" by simp
    have "two_to 0 \<le> a" "a < two_to (0 + 1)" using False Suc.prems by (simp_all add: two_to_def)
    moreover have "two_to (- int (Suc n)) \<le> two_to 0" by (simp add: two_to_le_iff)
    ultimately show ?thesis unfolding su by simp
  qed
qed


lemma scale_down_full: "two_to (int n) \<le> a \<Longrightarrow> scale_down n a = int n"
proof (induction n arbitrary: a)
  case 0
  then show ?case by simp
next
  case (Suc n)
  have t: "two_to (int (Suc n)) = 2 * two_to (int n)"
    using two_to_Suc [of "int n"] by (simp add: add.commute)
  have "1 \<le> two_to (int n)" using two_to_le_iff [of 0 "int n"] by (simp add: two_to_def)
  then have "2 \<le> a" using Suc.prems unfolding t by linarith
  moreover have "two_to (int n) \<le> a / 2" using Suc.prems unfolding t by simp
  ultimately show ?case using Suc.IH [of "a / 2"] by simp
qed

lemma exponent_range: "0 < a \<Longrightarrow> - 1022 \<le> exponent a \<and> exponent a \<le> 1023"
  using scale_down_spec [of a 1023] scale_up_spec [of a 1022]
  by (cases "1 \<le> a") (simp_all add: exponent_def)

lemma exponent_binade:
  assumes "two_to (- 1022) \<le> a" "a < two_to 1024"
  shows "two_to (exponent a) \<le> a \<and> a < two_to (exponent a + 1)"
proof (cases "1 \<le> a")
  case True
  then show ?thesis
    using scale_down_spec [of a 1023] assms(2) by (simp add: exponent_def)
next
  case False
  moreover have "0 < a" using assms(1) two_to_pos [of "- 1022"] by linarith
  ultimately show ?thesis
    using scale_up_spec [of a 1022] assms(1) by (simp add: exponent_def)
qed

lemma exponent_subnormal:
  assumes "0 < a" "a < two_to (- 1022)"
  shows "exponent a = - 1022"
proof -
  have "two_to (- 1022) \<le> two_to 0" by (simp add: two_to_le_iff)
  then have "a < 1" using assms(2) by (simp add: two_to_def)
  then show ?thesis
    using scale_up_spec [of a 1022] assms by (simp add: exponent_def)
qed

lemma exponent_huge:
  assumes "two_to 1024 \<le> a"
  shows "exponent a = 1023"
proof -
  have "two_to 0 \<le> two_to 1024" by (simp add: two_to_le_iff)
  then have a1: "1 \<le> a" using assms by (simp add: two_to_def)
  have "two_to (int 1023) \<le> two_to 1024" by (simp add: two_to_le_iff)
  then have "two_to (int 1023) \<le> a" using assms by linarith
  from scale_down_full [OF this] show ?thesis using a1 by (simp add: exponent_def)
qed

lemma exponent_unique:
  assumes "two_to k \<le> a" "a < two_to (k + 1)" "- 1022 \<le> k" "k \<le> 1023"
  shows "exponent a = k"
proof -
  have lo: "two_to (- 1022) \<le> a"
    using assms(1,3) two_to_le_iff [of "- 1022" k] by linarith
  have hi: "a < two_to 1024"
    using assms(2,4) two_to_le_iff [of "k + 1" 1024] by linarith
  from exponent_binade [OF lo hi]
  have "two_to (exponent a) < two_to (k + 1)" "two_to k < two_to (exponent a + 1)"
    using assms(1,2) by linarith+
  then show ?thesis by (simp add: two_to_less_iff)
qed


lemma round_half_even_of_int: "round_half_even (of_int n) = n"
  by (simp add: round_half_even_def)

lemma round_half_even_bounds: "\<lfloor>q\<rfloor> \<le> round_half_even q \<and> round_half_even q \<le> \<lceil>q\<rceil>"
proof -
  have "\<lfloor>q\<rfloor> + 1 \<le> \<lceil>q\<rceil>" if "0 < q - of_int \<lfloor>q\<rfloor>"
    using that by linarith
  then show ?thesis
    by (auto simp add: round_half_even_def Let_def ceiling_def) linarith+
qed

lemma round_half_even_ge: "of_int m \<le> q \<Longrightarrow> m \<le> round_half_even q"
  using round_half_even_bounds [of q] by (meson le_floor_iff order_trans)

lemma round_half_even_le: "q \<le> of_int m \<Longrightarrow> round_half_even q \<le> m"
  using round_half_even_bounds [of q] by (meson ceiling_le_iff order_trans)

lemma round_half_even_small: "0 \<le> q \<Longrightarrow> q \<le> 1 / 2 \<Longrightarrow> round_half_even q = 0"
proof -
  assume q: "0 \<le> q" "q \<le> 1 / 2"
  then have "\<lfloor>q\<rfloor> = 0" by linarith
  then show ?thesis using q by (simp add: round_half_even_def)
qed


lemma two_to_52: "two_to 52 = of_int (2 ^ 52)" and two_to_53: "two_to 53 = of_int (2 ^ 53)"
  by (simp_all add: two_to_def)

lemma two_to_ratio: "two_to a / two_to b = two_to (a - b)"
  using two_to_add [of "a - b" b] two_to_pos [of b] by (simp add: field_simps)

text \<open>The significand of a number with exponent \<open>e\<close> lies between \<open>2^52\<close> and \<open>2^53\<close>.\<close>

lemma significand_normal:
  assumes "two_to e \<le> a" "a < two_to (e + 1)"
  shows "2 ^ 52 \<le> round_half_even (a / two_to (e - 52))"
    and "round_half_even (a / two_to (e - 52)) \<le> 2 ^ 53"
proof -
  let ?u = "two_to (e - 52)"
  have u: "0 < ?u" by (rule two_to_pos)
  have "two_to e / ?u \<le> a / ?u" using assms(1) u by (simp add: divide_right_mono)
  then have "of_int (2 ^ 52) \<le> a / ?u" by (simp add: two_to_ratio two_to_52)
  then show "2 ^ 52 \<le> round_half_even (a / ?u)" by (rule round_half_even_ge)
  have "a / ?u \<le> two_to (e + 1) / ?u" using assms(2) u by (simp add: divide_right_mono)
  then have "a / ?u \<le> of_int (2 ^ 53)" by (simp add: two_to_ratio two_to_53)
  then show "round_half_even (a / ?u) \<le> 2 ^ 53" by (rule round_half_even_le)
qed

lemma round_mag_normal:
  assumes "two_to e \<le> a" "a < two_to (e + 1)" "- 1022 \<le> e" "e \<le> 1023"
  shows "round_mag a = of_int (round_half_even (a / two_to (e - 52))) * two_to (e - 52)"
    and "two_to e \<le> round_mag a" and "round_mag a \<le> two_to (e + 1)"
proof -
  let ?u = "two_to (e - 52)"
  let ?n = "round_half_even (a / ?u)"
  have ex: "exponent a = e" by (rule exponent_unique [OF assms])
  show rm: "round_mag a = of_int ?n * ?u" by (simp add: round_mag_def ex Let_def)
  have u: "0 < ?u" by (rule two_to_pos)
  have "of_int (2 ^ 52) * ?u \<le> of_int ?n * ?u"
    using significand_normal(1) [OF assms(1,2)] u by (simp del: of_int_power of_int_numeral)
  moreover have "of_int (2 ^ 52) * ?u = two_to e"
    using two_to_add [of 52 "e - 52"] by (simp add: two_to_52)
  ultimately show "two_to e \<le> round_mag a" unfolding rm by simp
  have "of_int ?n * ?u \<le> of_int (2 ^ 53) * ?u"
    using significand_normal(2) [OF assms(1,2)] u by (simp del: of_int_power of_int_numeral)
  moreover have "of_int (2 ^ 53) * ?u = two_to (e + 1)"
    using two_to_add [of 53 "e - 52"] by (simp add: two_to_53 add.commute)
  ultimately show "round_mag a \<le> two_to (e + 1)" unfolding rm by simp
qed

lemma round_mag_subnormal:
  assumes "0 < a" "a < two_to (- 1022)"
  shows "round_mag a = of_int (round_half_even (a / two_to (- 1074))) * two_to (- 1074)"
    and "0 \<le> round_half_even (a / two_to (- 1074))"
    and "round_half_even (a / two_to (- 1074)) \<le> 2 ^ 52"
    and "round_mag a \<le> two_to (- 1022)"
proof -
  let ?u = "two_to (- 1074)"
  let ?n = "round_half_even (a / ?u)"
  have ex: "exponent a = - 1022" by (rule exponent_subnormal [OF assms])
  show rm: "round_mag a = of_int ?n * ?u" by (simp add: round_mag_def ex Let_def)
  have u: "0 < ?u" by (rule two_to_pos)
  have "of_int 0 \<le> a / ?u" using assms(1) u by simp
  then show "0 \<le> ?n" by (rule round_half_even_ge)
  have "a / ?u \<le> two_to (- 1022) / ?u" using assms(2) u by (simp add: divide_right_mono)
  then have "a / ?u \<le> of_int (2 ^ 52)" by (simp add: two_to_ratio two_to_52)
  then show n: "?n \<le> 2 ^ 52" by (rule round_half_even_le)
  have "of_int ?n * ?u \<le> of_int (2 ^ 52) * ?u"
    using n u by (simp del: of_int_power of_int_numeral)
  moreover have "of_int (2 ^ 52) * ?u = two_to (- 1022)"
    using two_to_add [of 52 "- 1074"] by (simp add: two_to_52)
  ultimately show "round_mag a \<le> two_to (- 1022)" unfolding rm by simp
qed

lemma round_mag_huge:
  assumes "two_to 1024 \<le> a"
  shows "two_to 1024 \<le> round_mag a"
proof -
  let ?u = "two_to 971"
  let ?n = "round_half_even (a / ?u)"
  have ex: "exponent a = 1023" by (rule exponent_huge [OF assms])
  have rm: "round_mag a = of_int ?n * ?u" by (simp add: round_mag_def ex Let_def)
  have u: "0 < ?u" by (rule two_to_pos)
  have "two_to 1024 / ?u \<le> a / ?u" using assms u by (simp add: divide_right_mono)
  then have "of_int (2 ^ 53) \<le> a / ?u" by (simp add: two_to_ratio two_to_53)
  then have "2 ^ 53 \<le> ?n" by (rule round_half_even_ge)
  then have "of_int (2 ^ 53) * ?u \<le> of_int ?n * ?u"
    using u by (simp del: of_int_power of_int_numeral)
  moreover have "of_int (2 ^ 53) * ?u = two_to 1024"
    using two_to_add [of 53 971] by (simp add: two_to_53)
  ultimately show ?thesis unfolding rm by simp
qed

lemma round_mag_zero: "round_mag 0 = 0"
  by (simp add: round_mag_def round_half_even_def)


lemma round_mag_idem:
  assumes "0 < a" "0 < round_mag a" "round_mag a < two_to 1024"
  shows "round_mag (round_mag a) = round_mag a"
proof -
  let ?r = "round_mag a"
  consider "two_to 1024 \<le> a" | "two_to (- 1022) \<le> a" "a < two_to 1024" | "a < two_to (- 1022)"
    by linarith
  then show ?thesis
  proof cases
    case 1
    then show ?thesis using round_mag_huge [OF 1] assms(3) by simp
  next
    case 2
    define e where "e = exponent a"
    have bin: "two_to e \<le> a" "a < two_to (e + 1)"
      using exponent_binade [OF 2] by (simp_all add: e_def)
    have rng: "- 1022 \<le> e" "e \<le> 1023"
      using exponent_range [OF assms(1)] by (simp_all add: e_def)
    let ?u = "two_to (e - 52)"
    let ?n = "round_half_even (a / ?u)"
    have u: "0 < ?u" by (rule two_to_pos)
    note rm = round_mag_normal [OF bin rng]
    show ?thesis
    proof (cases "?r < two_to (e + 1)")
      case True
      have "round_mag ?r = of_int (round_half_even (?r / ?u)) * ?u"
        by (rule round_mag_normal(1) [OF rm(2) True rng])
      moreover have "?r / ?u = of_int ?n" using u by (simp add: rm(1))
      ultimately show ?thesis by (simp add: round_half_even_of_int rm(1))
    next
      case False
      then have r: "?r = two_to (e + 1)" using rm(3) by simp
      then have "two_to (e + 1) < two_to 1024" using assms(3) by simp
      then have e1: "e + 1 \<le> 1023" by (simp add: two_to_less_iff)
      have lt: "two_to (e + 1) < two_to (e + 1 + 1)" by (simp add: two_to_less_iff)
      have "round_mag (two_to (e + 1)) =
          of_int (round_half_even (two_to (e + 1) / two_to (e + 1 - 52))) * two_to (e + 1 - 52)"
        using round_mag_normal(1) [of "e + 1" "two_to (e + 1)"] lt rng(1) e1 by simp
      moreover have "two_to (e + 1) / two_to (e + 1 - 52) = of_int (2 ^ 52)"
        by (simp add: two_to_ratio two_to_52)
      moreover have "of_int (2 ^ 52) * two_to (e + 1 - 52) = two_to (e + 1)"
        using two_to_add [of 52 "e + 1 - 52"] by (simp add: two_to_52 add.commute)
      ultimately show ?thesis
        unfolding r by (simp only: round_half_even_of_int)
    qed
  next
    case 3
    let ?u = "two_to (- 1074)"
    let ?n = "round_half_even (a / ?u)"
    have u: "0 < ?u" by (rule two_to_pos)
    note rm = round_mag_subnormal [OF assms(1) 3]
    have q: "?r / ?u = of_int ?n" using u by (simp add: rm(1))
    show ?thesis
    proof (cases "?r < two_to (- 1022)")
      case True
      have "round_mag ?r = of_int (round_half_even (?r / ?u)) * ?u"
        by (rule round_mag_subnormal(1) [OF assms(2) True])
      then show ?thesis by (simp add: q round_half_even_of_int rm(1))
    next
      case False
      then have r: "two_to (- 1022) \<le> ?r" by simp
      have lt: "?r < two_to (- 1022 + 1)"
        using rm(4) two_to_less_iff [of "- 1022" "- 1022 + 1"] by linarith
      have "round_mag ?r = of_int (round_half_even (?r / two_to (- 1022 - 52))) * two_to (- 1022 - 52)"
        by (rule round_mag_normal(1) [OF r lt]) simp_all
      then show ?thesis by (simp add: q round_half_even_of_int rm(1))
    qed
  qed
qed

lemma round_double_zero: "round_double 0 = Finite 0"
  by (simp add: round_double_def)

lemma round_double_idem:
  assumes "round_double x = Finite y"
  shows "round_double y = Finite y"
proof (cases "x = 0")
  case True
  then show ?thesis using assms by (simp add: round_double_def)
next
  case False
  define r where "r = round_mag \<bar>x\<bar>"
  have a: "0 < \<bar>x\<bar>" using False by simp
  have fin: "r < two_to 1024" and y: "y = (if 0 < x then r else - r)"
    using assms False by (simp_all add: round_double_def r_def Let_def split: if_splits)
  have r0: "0 \<le> r"
  proof (cases "\<bar>x\<bar> < two_to (- 1022)")
    case True
    show ?thesis
      using round_mag_subnormal(1,2) [OF a True] two_to_pos [of "- 1074"] by (simp add: r_def)
  next
    case False
    then have lo: "two_to (- 1022) \<le> \<bar>x\<bar>" by simp
    show ?thesis
    proof (cases "\<bar>x\<bar> < two_to 1024")
      case True
      from exponent_binade [OF lo True] exponent_range [OF a]
      have "two_to (exponent \<bar>x\<bar>) \<le> r"
        unfolding r_def by (intro round_mag_normal(2)) simp_all
      then show ?thesis using two_to_pos [of "exponent \<bar>x\<bar>"] by linarith
    next
      case False
      then show ?thesis using round_mag_huge [of "\<bar>x\<bar>"] fin by (simp add: r_def)
    qed
  qed
  show ?thesis
  proof (cases "r = 0")
    case True
    then show ?thesis using y by (simp add: round_double_def)
  next
    case False
    then have pos: "0 < r" using r0 by simp
    have idem: "round_mag r = r"
      using round_mag_idem [OF a] pos fin by (simp add: r_def)
    have abs: "\<bar>y\<bar> = r" "y \<noteq> 0" "0 < y \<longleftrightarrow> 0 < x" using y pos by auto
    show ?thesis
      using fin idem abs y by (simp add: round_double_def Let_def)
  qed
qed

lemma round_double_uminus:
  "round_double (- x) = (case round_double x of Finite r \<Rightarrow> Finite (- r) | PInf \<Rightarrow> NInf
      | NInf \<Rightarrow> PInf | NaN \<Rightarrow> NaN)"
  by (simp add: round_double_def Let_def)


lemma round_double_normal:
  assumes "two_to e \<le> \<bar>x\<bar>" "\<bar>x\<bar> < two_to (e + 1)" "- 1022 \<le> e" "e \<le> 1022"
  shows "round_double x =
           Finite ((if 0 < x then 1 else - 1) *
                   (of_int (round_half_even (\<bar>x\<bar> / two_to (e - 52))) * two_to (e - 52)))"
proof -
  have e: "e \<le> 1023" using assms(4) by simp
  note rm = round_mag_normal [OF assms(1,2,3) e]
  have "two_to (e + 1) < two_to 1024" using assms(4) by (simp add: two_to_less_iff)
  then have fin: "\<not> two_to 1024 \<le> round_mag \<bar>x\<bar>" using rm(3) by linarith
  have "x \<noteq> 0" using assms(1) two_to_pos [of e] by auto
  then show ?thesis using fin by (simp add: round_double_def Let_def rm(1))
qed

lemma round_double_tiny:
  assumes "\<bar>x\<bar> \<le> two_to (- 1075)"
  shows "round_double x = Finite 0"
proof (cases "x = 0")
  case True
  then show ?thesis by (simp add: round_double_def)
next
  case False
  then have a: "0 < \<bar>x\<bar>" by simp
  have "two_to (- 1075) < two_to (- 1022)" by (simp add: two_to_less_iff)
  then have sub: "\<bar>x\<bar> < two_to (- 1022)" using assms by linarith
  have u: "0 < two_to (- 1074)" by (rule two_to_pos)
  have "\<bar>x\<bar> / two_to (- 1074) \<le> two_to (- 1075) / two_to (- 1074)"
    using assms u by (simp add: divide_right_mono)
  also have "two_to (- 1075) / two_to (- 1074) = 1 / 2"
    by (simp add: two_to_ratio) (simp add: two_to_def)
  finally have "round_half_even (\<bar>x\<bar> / two_to (- 1074)) = 0"
    using a u by (intro round_half_even_small) simp_all
  then have "round_mag \<bar>x\<bar> = 0" by (simp add: round_mag_subnormal(1) [OF a sub])
  then show ?thesis using False two_to_pos [of 1024] by (simp add: round_double_def)
qed

lemma round_double_huge:
  assumes "two_to 1024 \<le> \<bar>x\<bar>"
  shows "round_double x = (if 0 < x then PInf else NInf)"
proof -
  have "x \<noteq> 0" using assms two_to_pos [of 1024] by auto
  then show ?thesis using round_mag_huge [OF assms] by (simp add: round_double_def)
qed

text \<open>
  Rounded values at the numbers of the examples. The constant \<^verbatim>\<open>1e-3\<close> is
  \<open>1152921504606847 / 2^60\<close>; added to 1 it gives the double \<^verbatim>\<open>1.001\<close>, added to \<open>2^60\<close> it
  is lost; \<open>2^-60\<close> added to 1 is lost; \<open>2 * 2^-600 * 2^-600\<close> underflows to zero.
\<close>

lemma round_stability:
  "round_double (1 / 1000) = Finite (1152921504606847 / 1152921504606846976)"
  using round_double_normal [of "- 10" "1 / 1000"]
  by (simp add: two_to_def round_half_even_def)

lemma round_one_plus_stability:
  "round_double (1 + 1152921504606847 / 1152921504606846976) = round_double (1001 / 1000)"
  using round_double_normal [of 0 "1 + 1152921504606847 / 1152921504606846976"]
    round_double_normal [of 0 "1001 / 1000"]
  by (simp add: two_to_def round_half_even_def)

lemma round_big_plus_stability:
  "round_double (1152921504606846976 + 1152921504606847 / 1152921504606846976) =
     Finite 1152921504606846976"
  using round_double_normal [of 60 "1152921504606846976 + 1152921504606847 / 1152921504606846976"]
  by (simp add: two_to_def round_half_even_def)

lemma round_one_plus_tiny: "round_double (1 + 1 / 2 ^ 60) = Finite 1"
  using round_double_normal [of 0 "1 + 1 / 2 ^ 60"]
  by (simp add: two_to_def round_half_even_def)

lemma round_twice_tiny: "round_double (2 * (1 / 2 ^ 600)) = Finite (1 / 2 ^ 599)"
  using round_double_normal [of "- 599" "2 * (1 / 2 ^ 600)"]
  by (simp add: two_to_def round_half_even_def)

lemma round_underflow: "round_double (1 / 2 ^ 599 * (1 / 2 ^ 600)) = Finite 0"
proof -
  have "(1::real) / 2 ^ 599 * (1 / 2 ^ 600) = two_to (- 1199)"
    by (simp add: two_to_def power_add [symmetric] del: power_numeral)
  moreover have "two_to (- 1199) \<le> two_to (- 1075)" by (simp add: two_to_le_iff)
  ultimately show ?thesis
    using round_double_tiny [of "1 / 2 ^ 599 * (1 / 2 ^ 600)"] two_to_pos [of "- 1199"] by simp
qed

lemma round_small_numbers:
  "round_double 1 = Finite 1" "round_double 2 = Finite 2" "round_double 3 = Finite 3"
  "round_double 5 = Finite 5" "round_double 6 = Finite 6" "round_double 8 = Finite 8"
  "round_double 11 = Finite 11" "round_double 16 = Finite 16" "round_double 18 = Finite 18"
  using round_double_normal [of 0 1] round_double_normal [of 1 2] round_double_normal [of 1 3]
    round_double_normal [of 2 5] round_double_normal [of 2 6] round_double_normal [of 3 8]
    round_double_normal [of 3 11] round_double_normal [of 4 16] round_double_normal [of 4 18]
  by (simp_all add: two_to_def round_half_even_def)

lemma round_big: "round_double 1152921504606846976 = Finite 1152921504606846976"
  using round_double_normal [of 60 1152921504606846976]
  by (simp add: two_to_def round_half_even_def)

text \<open>Every result of the arithmetic is a double, and adding zero to a double changes nothing.\<close>

lemma is_double_round: "is_double (round_double r)"
  by (cases "round_double r")
    (simp_all add: is_double_def representable_def round_double_idem)

lemma is_double_plus: "is_double (a + b)" for a b :: double
  by (cases a; cases b) (simp_all add: is_double_round, simp_all add: is_double_def)

lemma is_double_zero: "is_double 0"
  by (simp add: is_double_def representable_def zero_double_def round_double_zero)

lemma plus_zero_double: "is_double v \<Longrightarrow> v + Finite 0 = v"
  by (cases v) (simp_all add: is_double_def representable_def)

lemma representable_stability: "representable (1152921504606847 / 1152921504606846976)"
  unfolding representable_def by (rule round_double_idem [OF round_stability])

lemma stability_times_one: "round_double (1 / 1000) * 1 = round_double (1 / 1000)"
  using representable_stability by (simp add: round_stability one_double_def representable_def)

lemma stability_times_zero: "round_double (1 / 1000) * 0 = Finite 0"
  by (simp add: round_stability zero_double_def round_double_zero)

section \<open>Index arithmetic and element access\<close>

lemma idx_inj: "a < (M::nat) \<Longrightarrow> i < M \<Longrightarrow> a + b * M = i + j * M \<Longrightarrow> a = i \<and> b = j"
  by (metis add.commute div_mult_self3 div_less add_cancel_right_left not_less_zero mod_mult_self3 mod_less)

lemma idx_lt:
  assumes "a < (M::nat)" "b < N"
  shows "a + b * M < M * N"
proof -
  have "a + b * M < Suc b * M" using assms(1) by simp
  also have "\<dots> \<le> N * M" using assms(2) by (intro mult_le_mono1) simp
  finally show ?thesis by (simp add: mult.commute)
qed

lemma col_nat: "j < cols A \<Longrightarrow> col A (int j) = Inr (stored_column A j)"
  by (simp add: col_def stored_column_def)

lemma stored_column_eq:
  assumes "wf_matrix A" "j < cols A"
  shows "stored_column A j = column A j"
proof (rule nth_equalityI)
  have "rows A + j * rows A \<le> rows A * cols A"
    using idx_lt [of 0 "rows A" j "cols A"] assms(2)
    by (metis Suc_leI mult.commute mult_Suc mult_le_mono1)
  then show len: "length (stored_column A j) = length (column A j)"
    using assms(1) by (simp add: stored_column_def column_def wf_matrix_def)
  fix r assume "r < length (stored_column A j)"
  then have "r < rows A" by (simp add: stored_column_def)
  moreover have "j * rows A \<le> length (coeffs A)"
    using \<open>rows A + j * rows A \<le> rows A * cols A\<close> assms(1) unfolding wf_matrix_def by linarith
  ultimately show "stored_column A j ! r = column A j ! r"
    using \<open>rows A + j * rows A \<le> rows A * cols A\<close> assms(1)
    by (simp add: stored_column_def column_def entry_def wf_matrix_def add.commute)
qed

lemma set_coeff_nat:
  "i < rows A \<Longrightarrow> j < cols A \<Longrightarrow>
   set_coeff A (int i) (int j) v = Inr (A\<lparr>coeffs := (coeffs A)[i + j * rows A := v]\<rparr>)"
  by (simp add: set_coeff_def)

lemma nat_int_pred: "nat (int n - 1) = n - 1"
  by arith

lemma coeff_at_last:
  assumes "0 < msize A" "length (coeffs A) = msize A"
  shows "coeff_at A (int (msize A) - 1) = Inr (last (coeffs A))"
proof -
  have "coeffs A \<noteq> []" using assms by auto
  then have "last (coeffs A) = coeffs A ! (msize A - 1)"
    using assms(2) by (simp add: last_conv_nth)
  then show ?thesis
    using assms(1) by (simp add: coeff_at_def nat_int_pred)
qed

lemma set_coeff_at_last:
  assumes "0 < msize A"
  shows "set_coeff_at A (int (msize A) - 1) v = Inr (A\<lparr>coeffs := (coeffs A)[msize A - 1 := v]\<rparr>)"
  using assms by (simp add: set_coeff_at_def nat_int_pred)

lemma to_int_small: "n \<le> INT_MAX \<Longrightarrow> to_int n = int n"
  by (simp add: to_int_def INT_MAX_def)

lemma MatrixXd_alloc_nat:
  "MatrixXd_alloc mem (int m) (int n) = Inr \<lparr>rows = m, cols = n, coeffs = map mem [0..<m * n]\<rparr>"
  by (simp add: MatrixXd_alloc_def)

section \<open>What the loops compute\<close>

text \<open>
  One run of the inner loop fills row \<open>i\<close> of the result at the columns it visits and
  touches nothing else; no access leaves the matrix.
\<close>

lemma inner_loop_spec:
  assumes "i < cols X" "set js \<subseteq> {..<cols Y}"
    and "rows R = cols X" "cols R = cols Y" "length (coeffs R) = cols X * cols Y"
  shows "\<exists>R'. inner_loop kf X Y i js R = Inr R' \<and> rows R' = cols X \<and> cols R' = cols Y \<and>
           length (coeffs R') = cols X * cols Y \<and>
           (\<forall>a<cols X. \<forall>b<cols Y. entry R' a b =
              (if a = i \<and> b \<in> set js then kf (stored_column X i) (stored_column Y b)
               else entry R a b))"
  using assms
proof (induction js arbitrary: R)
  case Nil
  then show ?case by simp
next
  case (Cons j js)
  let ?v = "kf (stored_column X i) (stored_column Y j)"
  let ?R1 = "R\<lparr>coeffs := (coeffs R)[i + j * rows R := ?v]\<rparr>"
  from Cons.prems have j: "j < cols Y" and js: "set js \<subseteq> {..<cols Y}" by auto
  have step: "inner_loop kf X Y i (j # js) R = inner_loop kf X Y i js ?R1"
    using Cons.prems(1,3,4) j by (simp add: and_then_def col_nat set_coeff_nat)
  have shape: "rows ?R1 = cols X" "cols ?R1 = cols Y" "length (coeffs ?R1) = cols X * cols Y"
    using Cons.prems by simp_all
  from Cons.IH [OF Cons.prems(1) js shape]
  obtain R' where R': "inner_loop kf X Y i js ?R1 = Inr R'" "rows R' = cols X" "cols R' = cols Y"
    "length (coeffs R') = cols X * cols Y"
    and ent: "\<forall>a<cols X. \<forall>b<cols Y. entry R' a b =
              (if a = i \<and> b \<in> set js then kf (stored_column X i) (stored_column Y b)
               else entry ?R1 a b)"
    by blast
  have upd: "entry ?R1 a b = (if a = i \<and> b = j then ?v else entry R a b)"
    if "a < cols X" "b < cols Y" for a b
  proof (cases "a = i \<and> b = j")
    case True
    then show ?thesis
      using idx_lt [OF Cons.prems(1) j] Cons.prems(3,5) by (simp add: entry_def)
  next
    case False
    then have "i + j * cols X \<noteq> a + b * cols X"
      using idx_inj [OF that(1) Cons.prems(1)] by metis
    then show ?thesis using False Cons.prems(3) by (auto simp add: entry_def)
  qed
  show ?case
    using R' ent upd step by auto
qed

lemma outer_loop_spec:
  assumes "set is \<subseteq> {..<cols X}"
    and "rows R = cols X" "cols R = cols Y" "length (coeffs R) = cols X * cols Y"
  shows "\<exists>R'. outer_loop kf X Y (int (cols Y)) is R = Inr R' \<and> rows R' = cols X \<and> cols R' = cols Y \<and>
           length (coeffs R') = cols X * cols Y \<and>
           (\<forall>a<cols X. \<forall>b<cols Y. entry R' a b =
              (if a \<in> set is then kf (stored_column X a) (stored_column Y b)
               else entry R a b))"
  using assms
proof (induction "is" arbitrary: R)
  case Nil
  then show ?case by simp
next
  case (Cons i "is")
  from Cons.prems have i: "i < cols X" and "is": "set is \<subseteq> {..<cols X}" by auto
  have "set [0..<cols Y] \<subseteq> {..<cols Y}" by auto
  from inner_loop_spec [OF i this Cons.prems(2,3,4), of kf]
  obtain R1 where R1: "inner_loop kf X Y i [0..<nat (int (cols Y))] R = Inr R1" "rows R1 = cols X"
    "cols R1 = cols Y" "length (coeffs R1) = cols X * cols Y"
    and ent1: "\<forall>a<cols X. \<forall>b<cols Y. entry R1 a b =
              (if a = i then kf (stored_column X i) (stored_column Y b) else entry R a b)"
    by auto
  from Cons.IH [OF "is" R1(2,3,4)]
  obtain R' where R': "outer_loop kf X Y (int (cols Y)) is R1 = Inr R'" "rows R' = cols X"
    "cols R' = cols Y" "length (coeffs R') = cols X * cols Y"
    and ent: "\<forall>a<cols X. \<forall>b<cols Y. entry R' a b =
              (if a \<in> set is then kf (stored_column X a) (stored_column Y b)
               else entry R1 a b)"
    by blast
  have "outer_loop kf X Y (int (cols Y)) (i # is) R = Inr R'"
    using R1(1) R'(1) by (simp add: and_then_def)
  then show ?case using R' ent ent1 by auto
qed

text \<open>
  With equal numbers of rows and column counts that fit \<^verbatim>\<open>int\<close>, \<open>gram_matrix\<close> returns
  the matrix of all kernel values: every cell of the fresh storage has been overwritten.
\<close>

lemma gram_matrix_eq:
  assumes "rows X = rows Y" "cols X \<le> INT_MAX" "cols Y \<le> INT_MAX"
  shows "gram_matrix mem kf X Y = Inr (gram_of kf X Y)"
proof -
  let ?R = "\<lparr>rows = cols X, cols = cols Y, coeffs = map mem [0..<cols X * cols Y]\<rparr>"
  have "rows ?R = cols X" "cols ?R = cols Y" "length (coeffs ?R) = cols X * cols Y"
    by simp_all
  moreover have "set [0..<cols X] \<subseteq> {..<cols X}" by auto
  ultimately obtain G where G: "outer_loop kf X Y (int (cols Y)) [0..<cols X] ?R = Inr G" "rows G = cols X"
    "cols G = cols Y" "length (coeffs G) = cols X * cols Y"
    and ent: "\<forall>a<cols X. \<forall>b<cols Y. entry G a b = kf (stored_column X a) (stored_column Y b)"
    using outer_loop_spec [of "[0..<cols X]" X ?R Y kf] by auto
  have "coeffs G = coeffs (gram_of kf X Y)"
  proof (rule nth_equalityI)
    show "length (coeffs G) = length (coeffs (gram_of kf X Y))"
      using G(4) by (simp add: gram_of_def)
    fix idx assume "idx < length (coeffs G)"
    then have idx: "idx < cols X * cols Y" using G(4) by simp
    then have pos: "0 < cols X" by (cases "cols X") simp_all
    have a: "idx mod cols X < cols X" using pos by simp
    have b: "idx div cols X < cols Y" using idx by (simp add: less_mult_imp_div_less mult.commute)
    have "entry G (idx mod cols X) (idx div cols X) = coeffs G ! idx"
      using G(2) by (simp add: entry_def)
    then show "coeffs G ! idx = coeffs (gram_of kf X Y) ! idx"
      using ent a b idx by (simp add: gram_of_def)
  qed
  then have "G = gram_of kf X Y"
    using G(2,3) by (simp add: gram_of_def)
  then show ?thesis
    using assms(1) G(1)
    by (simp add: gram_matrix_def to_int_small [OF assms(2)] to_int_small [OF assms(3)]
        MatrixXd_alloc_nat and_then_def)
qed

lemma gram_of_shape:
  "rows (gram_of kf X Y) = cols X" "cols (gram_of kf X Y) = cols Y"
  "length (coeffs (gram_of kf X Y)) = cols X * cols Y"
  "msize (gram_of kf X Y) = cols X * cols Y"
  by (simp_all add: gram_of_def msize_def)

lemma gram_of_entry:
  assumes "i < cols X" "j < cols Y"
  shows "entry (gram_of kf X Y) i j = kf (stored_column X i) (stored_column Y j)"
  using idx_lt [OF assms] assms(1) by (simp add: entry_def gram_of_def)

lemma gram_matrix_InvalidArgument_iff:
  "gram_matrix mem kf X Y = Inl InvalidArgument \<longleftrightarrow> rows X \<noteq> rows Y"
proof (cases "rows X = rows Y")
  case True
  have "outer_loop kf X Y N is R \<noteq> Inl InvalidArgument" for N "is" R
  proof (induction "is" arbitrary: R)
    case Nil
    then show ?case by simp
  next
    case (Cons i "is")
    have "inner_loop kf X Y i js R' \<noteq> Inl InvalidArgument" for js R'
      by (induction js arbitrary: R')
        (auto simp add: and_then_def col_def set_coeff_def split: sum.splits if_splits)
    then show ?case using Cons by (auto simp add: and_then_def split: sum.splits)
  qed
  then show ?thesis
    using True
    by (auto simp add: gram_matrix_def Let_def and_then_def MatrixXd_alloc_def split: sum.splits if_splits)
next
  case False
  then show ?thesis by (simp add: gram_matrix_def)
qed

lemma gram_matrix_total:
  "rows X = rows Y \<Longrightarrow> cols X \<le> INT_MAX \<Longrightarrow> cols Y \<le> INT_MAX \<Longrightarrow>
   \<exists>G. gram_matrix mem kf X Y = Inr G"
  by (simp add: gram_matrix_eq)

section \<open>Scalar and kernel facts\<close>

text \<open>Products commute, and so do squared differences, since rounding is symmetric.\<close>

lemma times_double_commute: "a * b = b * a" for a b :: double
  by (cases a; cases b; simp add: mult.commute)

lemma square_uminus: "(- v) * (- v) = v * v" for v :: double
  by (cases v) simp_all

lemma minus_double_swap: "b - a = - (a - b)" for a b :: double
proof (cases a; cases b)
  fix r s assume ab: "a = Finite r" "b = Finite s"
  have "s + - r = - (r + - s)" by simp
  then have "round_double (s + - r) = - round_double (r + - s)"
    using round_double_uminus [of "r + - s"]
    by (cases "round_double (r + - s)") simp_all
  then show ?thesis using ab by (simp add: minus_double_def)
qed (simp_all add: minus_double_def)

lemma square_diff_commute: "(a - b) * (a - b) = (b - a) * (b - a)" for a b :: double
  by (simp add: minus_double_swap [of a b] square_uminus)

lemma map2_times_commute: "map2 (*) x y = map2 (*) y (x :: VectorXd)"
proof (induction x arbitrary: y)
  case Nil
  then show ?case by simp
next
  case (Cons a x)
  then show ?case by (cases y) (simp_all add: times_double_commute)
qed

lemma dot_commute: "dot x y = dot y x"
  by (simp add: dot_def map2_times_commute [of x y])

lemma squares_commute:
  "map (\<lambda>d. d * d) (map2 (-) x y) = map (\<lambda>d. d * d) (map2 (-) y (x :: VectorXd))"
proof (induction x arbitrary: y)
  case Nil
  then show ?case by simp
next
  case (Cons a x)
  then show ?case by (cases y) (simp_all add: square_diff_commute)
qed

lemma square_sum_diff_commute: "square_sum_diff x y = square_sum_diff y x"
  unfolding square_sum_diff_def squares_commute [of x y] ..

lemma kernel_k_commute: "kernel_k c_pow kern x y = kernel_k c_pow kern y x"
  by (cases kern)
    (simp_all add: linear_kernel_k_def polynomial_kernel_k_def gaussian_kernel_k_def
      dot_commute [of x y] square_sum_diff_commute [of x y])

lemma kernel_k_linear: "kernel_k c_pow (linear_kernel c) = linear_kernel_k c"
  by (rule ext)+ simp

lemma is_double_linear_kernel: "is_double (linear_kernel_k c x y)"
  by (simp add: linear_kernel_k_def is_double_plus)

text \<open>The squared distance of a finite vector to itself is zero.\<close>

lemma foldl_plus_zeros: "foldl (+) (Finite 0) (replicate n (Finite 0)) = Finite 0"
  by (induction n) (simp_all add: round_double_zero)

lemma square_sum_diff_self: "square_sum_diff (map Finite xs) (map Finite xs) = Finite 0"
proof -
  have "map (\<lambda>d. d * d) (map2 (-) (map Finite xs) (map Finite xs)) =
      replicate (length xs) (Finite 0)"
    by (induction xs) (simp_all add: minus_double_def round_double_zero)
  then show ?thesis
    by (simp add: square_sum_diff_def zero_double_def foldl_plus_zeros)
qed

text \<open>
  The accumulation of the products, when no step rounds: it is then the real sum of
  the products.
\<close>

lemma dot_exact:
  assumes "length xs = length ys"
    and "\<forall>i<length xs. representable (xs ! i * ys ! i)"
    and "\<forall>n\<le>length xs. representable (\<Sum>i<n. xs ! i * ys ! i)"
  shows "dot (map Finite xs) (map Finite ys) = Finite (\<Sum>i<length xs. xs ! i * ys ! i)"
proof -
  let ?ps = "map2 (*) (map Finite xs) (map Finite ys)"
  have len: "length ?ps = length xs" using assms(1) by simp
  have "foldl (+) 0 (take n ?ps) = Finite (\<Sum>i<n. xs ! i * ys ! i)" if "n \<le> length xs" for n
    using that
  proof (induction n)
    case 0
    then show ?case by (simp add: zero_double_def)
  next
    case (Suc n)
    then have n: "n < length xs" by simp
    have p: "?ps ! n = Finite (xs ! n * ys ! n)"
      using n assms(1,2) by (simp add: representable_def)
    have "take (Suc n) ?ps = take n ?ps @ [?ps ! n]"
      using n len by (simp add: take_Suc_conv_app_nth)
    then have "foldl (+) 0 (take (Suc n) ?ps) = foldl (+) 0 (take n ?ps) + ?ps ! n"
      by simp
    also have "\<dots> = round_double ((\<Sum>i<n. xs ! i * ys ! i) + xs ! n * ys ! n)"
      using Suc n p by simp
    also have "\<dots> = Finite (\<Sum>i<Suc n. xs ! i * ys ! i)"
    proof -
      have "representable (\<Sum>i<Suc n. xs ! i * ys ! i)" using assms(3) Suc.prems by blast
      then show ?thesis by (simp add: representable_def)
    qed
    finally show ?case .
  qed
  from this [of "length xs"] show ?thesis using len by (simp add: dot_def)
qed

section \<open>The branches of the stabilised Gram matrix\<close>

lemma stable_mismatch:
  "rows X \<noteq> rows Y \<Longrightarrow> gram_matrix_stable mem kf X Y = Inl InvalidArgument"
  by (simp add: gram_matrix_stable_def gram_matrix_def and_then_def)

lemma one_le_INT_MAX: "n = 1 \<Longrightarrow> n \<le> INT_MAX"
  by (simp add: INT_MAX_def)

lemma stable_one_by_one:
  assumes "rows X = rows Y" "cols X = 1" "cols Y = 1"
  shows "gram_matrix_stable mem kf X Y =
           Inr \<lparr>rows = 1, cols = 1,
                coeffs = [if kf (stored_column X 0) (stored_column Y 0) = 1
                          then kf (stored_column X 0) (stored_column Y 0) + round_double (1 / 1000)
                          else kf (stored_column X 0) (stored_column Y 0)]\<rparr>"
  using assms gram_matrix_eq [OF assms(1) one_le_INT_MAX [OF assms(2)] one_le_INT_MAX [OF assms(3)]]
  by (simp add: gram_matrix_stable_def and_then_def is_one_by_one_of_one_def
      is_vector_ending_in_one_def coeff_def coeff_at_def set_coeff_def msize_def gram_of_def)

lemma stable_square:
  assumes "rows X = rows Y" "cols X \<le> INT_MAX" "cols Y \<le> INT_MAX" "1 < cols X" "1 < cols Y"
  shows "gram_matrix_stable mem kf X Y =
           Inr ((gram_of kf X Y)\<lparr>coeffs := map2 (+) (coeffs (gram_of kf X Y))
                  (map (\<lambda>v. round_double (1 / 1000) * v) (coeffs (Identity (cols X) (cols Y))))\<rparr>)"
proof -
  have "cols X * cols Y \<noteq> 1" using assms(4,5) by simp
  then show ?thesis
    using assms(4,5)
    by (simp add: gram_matrix_stable_def gram_matrix_eq [OF assms(1,2,3)] and_then_def
        is_one_by_one_of_one_def gram_of_shape madd_def smul_def Identity_def)
qed

lemma stable_square_entry:
  assumes "rows X = rows Y" "cols X \<le> INT_MAX" "cols Y \<le> INT_MAX" "1 < cols X" "1 < cols Y"
    and "\<forall>x y. is_double (kf x y)"
  shows "\<exists>S. gram_matrix_stable mem kf X Y = Inr S \<and> rows S = cols X \<and> cols S = cols Y \<and>
           length (coeffs S) = cols X * cols Y \<and>
           (\<forall>i<cols X. \<forall>j<cols Y. entry S i j =
               (if i = j then entry (gram_of kf X Y) i j + round_double (1 / 1000)
                else entry (gram_of kf X Y) i j))"
proof -
  let ?G = "gram_of kf X Y"
  let ?S = "?G\<lparr>coeffs := map2 (+) (coeffs ?G)
                  (map (\<lambda>v. round_double (1 / 1000) * v) (coeffs (Identity (cols X) (cols Y))))\<rparr>"
  have "entry ?S i j = (if i = j then entry ?G i j + round_double (1 / 1000) else entry ?G i j)"
    if "i < cols X" "j < cols Y" for i j
  proof -
    have "is_double (coeffs ?G ! (i + j * cols X))"
      using idx_lt [OF that] that(1) assms(6) by (simp add: gram_of_def)
    then show ?thesis
      using idx_lt [OF that] that(1)
      by (simp add: entry_def gram_of_shape Identity_def stability_times_one
          stability_times_zero plus_zero_double)
  qed
  then show ?thesis
    unfolding stable_square [OF assms(1-5)]
    by (simp add: gram_of_shape Identity_def)
qed

lemma stable_vector:
  assumes "rows X = rows Y" "cols X \<le> INT_MAX" "cols Y \<le> INT_MAX"
    and "cols X = 1 \<or> cols Y = 1" "1 < cols X * cols Y"
  shows "gram_matrix_stable mem kf X Y =
           Inr (if last (coeffs (gram_of kf X Y)) = 1
                then (gram_of kf X Y)\<lparr>coeffs := (coeffs (gram_of kf X Y))
                       [cols X * cols Y - 1 := last (coeffs (gram_of kf X Y)) + round_double (1 / 1000)]\<rparr>
                else gram_of kf X Y)"
proof -
  let ?G = "gram_of kf X Y"
  have sz: "msize ?G = cols X * cols Y" "0 < msize ?G" "length (coeffs ?G) = msize ?G"
    using assms(5) by (auto simp add: gram_of_shape intro: Suc_lessD gr0I)
  have b1: "msize ?G \<noteq> 1" using assms(5) sz(1) by linarith
  have shape: "cols ?G = 1 \<or> rows ?G = 1" using assms(4) by (auto simp add: gram_of_shape)
  have st: "is_one_by_one_of_one ?G = Inr False"
    using b1 by (simp add: is_one_by_one_of_one_def)
  have vec: "is_vector_ending_in_one ?G = Inr (last (coeffs ?G) = 1)"
    using shape coeff_at_last [OF sz(2,3)]
    by (simp only: is_vector_ending_in_one_def and_then_def if_True sum.case)
  have body: "gram_matrix_stable mem kf X Y =
      (if last (coeffs ?G) = 1
       then set_coeff_at ?G (int (msize ?G) - 1) (last (coeffs ?G) + round_double (1 / 1000))
       else Inr ?G)"
  proof (cases "cols X = 1")
    case True
    then show ?thesis
      by (simp add: gram_matrix_stable_def gram_matrix_eq [OF assms(1,2,3)] and_then_def st vec
          Let_def coeff_at_last [OF sz(2,3)] gram_of_shape(1,2))
  next
    case False
    then have "cols Y = 1" using assms(4) by simp
    then show ?thesis
      by (simp add: gram_matrix_stable_def gram_matrix_eq [OF assms(1,2,3)] and_then_def st vec
          Let_def coeff_at_last [OF sz(2,3)] gram_of_shape(1,2))
  qed
  show ?thesis
    unfolding body set_coeff_at_last [OF sz(2)] by (simp add: sz(1))
qed

text \<open>
  An empty Gram matrix with exactly one row or one column reaches the third branch,
  whose condition reads the coefficient at index \<open>size - 1 = - 1\<close>; any other empty Gram
  matrix is returned as it is. A Gram matrix that is not empty is always stabilised
  without an error.
\<close>

lemma stable_empty:
  assumes "rows X = rows Y" "cols X \<le> INT_MAX" "cols Y \<le> INT_MAX" "cols X * cols Y = 0"
  shows "gram_matrix_stable mem kf X Y =
           (if cols X = 1 \<or> cols Y = 1 then Inl OutOfBounds else Inr (gram_of kf X Y))"
proof -
  let ?G = "gram_of kf X Y"
  have sz: "msize ?G = 0" using assms(4) by (simp add: gram_of_shape)
  have b2: "\<not> (1 < cols X \<and> 1 < cols Y)" using assms(4) by auto
  have st: "is_one_by_one_of_one ?G = Inr False"
    by (simp add: is_one_by_one_of_one_def sz)
  have vec: "is_vector_ending_in_one ?G =
      (if cols X = 1 \<or> cols Y = 1 then Inl OutOfBounds else Inr False)"
    using assms(4)
    by (auto simp add: is_vector_ending_in_one_def coeff_at_def sz and_then_def gram_of_shape)
  show ?thesis
    using b2
    by (auto simp add: gram_matrix_stable_def gram_matrix_eq [OF assms(1,2,3)] and_then_def st vec
        Let_def gram_of_shape(1,2))
qed

lemma stable_total_nonempty:
  assumes "rows X = rows Y" "cols X \<le> INT_MAX" "cols Y \<le> INT_MAX" "0 < cols X * cols Y"
  shows "\<exists>S. gram_matrix_stable mem kf X Y = Inr S"
proof -
  consider "cols X = 1 \<and> cols Y = 1" | "1 < cols X \<and> 1 < cols Y"
    | "(cols X = 1 \<or> cols Y = 1) \<and> 1 < cols X * cols Y"
    using assms(4)
    by (metis One_nat_def Suc_lessI mult.commute mult_is_0 nat_mult_1 neq0_conv)
  then show ?thesis
  proof cases
    case 1
    then show ?thesis using stable_one_by_one [OF assms(1), of mem kf] by simp
  next
    case 2
    then show ?thesis using stable_square [OF assms(1,2,3), of mem kf] by simp
  next
    case 3
    then show ?thesis using stable_vector [OF assms(1,2,3), of mem kf] by simp
  qed
qed

text \<open>
  The content of the uninitialised storage has no influence on the Gram matrix, nor on
  the stabilised one.
\<close>

lemma gram_matrix_independent_of_storage:
  assumes "cols X \<le> INT_MAX" "cols Y \<le> INT_MAX"
  shows "gram_matrix mem kf X Y = gram_matrix mem' kf X Y"
proof (cases "rows X = rows Y")
  case True
  then show ?thesis by (simp add: gram_matrix_eq [OF _ assms])
next
  case False
  then show ?thesis by (simp add: gram_matrix_def)
qed

lemma gram_matrix_stable_independent_of_storage:
  assumes "cols X \<le> INT_MAX" "cols Y \<le> INT_MAX"
  shows "gram_matrix_stable mem kf X Y = gram_matrix_stable mem' kf X Y"
  using gram_matrix_independent_of_storage [OF assms, of mem kf mem']
  by (simp add: gram_matrix_stable_def)

section \<open>The examples, evaluated\<close>

lemma upt_small: "[0..<1] = [0]" "[0..<2] = [0, 1]" "[0..<3] = [0, 1, 2]" "[0..<4] = [0, 1, 2, 3]"
  by code_simp+

lemma small_le_INT_MAX: "0 \<le> INT_MAX" "1 \<le> INT_MAX" "2 \<le> INT_MAX" "3 \<le> INT_MAX"
  by (simp_all add: INT_MAX_def)

lemma one_plus_stability: "Finite 1 + round_double (1 / 1000) = round_double (1001 / 1000)"
  unfolding round_stability plus_double.simps by (rule round_one_plus_stability)

lemma big_plus_stability:
  "Finite 1152921504606846976 + round_double (1 / 1000) = Finite 1152921504606846976"
  unfolding round_stability plus_double.simps by (rule round_big_plus_stability)

lemma gram_of_orthonormal:
  "gram_of (linear_kernel_k (Finite 0)) orthonormal_X orthonormal_X =
     \<lparr>rows = 2, cols = 2, coeffs = [Finite 1, Finite 0, Finite 0, Finite 1]\<rparr>"
  by (simp add: gram_of_def orthonormal_X_def stored_column_def linear_kernel_k_def dot_def
      zero_double_def round_double_zero round_small_numbers upt_small)

lemma gram_of_scaled:
  "gram_of (linear_kernel_k (Finite 0)) scaled_X scaled_X =
     \<lparr>rows = 2, cols = 2,
      coeffs = [Finite 1152921504606846976, Finite 0, Finite 0, Finite 1152921504606846976]\<rparr>"
  by (simp add: gram_of_def scaled_X_def stored_column_def linear_kernel_k_def dot_def
      zero_double_def round_double_zero round_big upt_small)

lemma gram_of_rows:
  "gram_of (linear_kernel_k (Finite 0)) row_X row_Y =
     \<lparr>rows = 1, cols = 3, coeffs = [Finite 2, Finite 3, Finite 1]\<rparr>"
  by (simp add: gram_of_def row_X_def row_Y_def stored_column_def linear_kernel_k_def dot_def
      zero_double_def round_double_zero round_small_numbers upt_small)

lemma identity_two:
  "map (\<lambda>v. round_double (1 / 1000) * v) (coeffs (Identity 2 2)) =
     [round_double (1 / 1000), Finite 0, Finite 0, round_double (1 / 1000)]"
  by (simp add: Identity_def upt_small stability_times_one stability_times_zero)

lemma stable_orthonormal:
  "gram_matrix_stable mem (linear_kernel_k (Finite 0)) orthonormal_X orthonormal_X =
     Inr \<lparr>rows = 2, cols = 2,
          coeffs = [round_double (1001 / 1000), Finite 0, Finite 0, round_double (1001 / 1000)]\<rparr>"
proof -
  have h: "rows orthonormal_X = rows orthonormal_X" "cols orthonormal_X \<le> INT_MAX"
    "1 < cols orthonormal_X" and c: "cols orthonormal_X = 2"
    by (simp_all add: orthonormal_X_def INT_MAX_def)
  show ?thesis
    unfolding stable_square [OF h(1,2,2,3,3)] gram_of_orthonormal c
    by (simp add: identity_two one_plus_stability round_double_zero)
qed

lemma stable_scaled:
  "gram_matrix_stable mem (linear_kernel_k (Finite 0)) scaled_X scaled_X =
     Inr \<lparr>rows = 2, cols = 2,
          coeffs = [Finite 1152921504606846976, Finite 0, Finite 0, Finite 1152921504606846976]\<rparr>"
proof -
  have h: "rows scaled_X = rows scaled_X" "cols scaled_X \<le> INT_MAX"
    "1 < cols scaled_X" and c: "cols scaled_X = 2"
    by (simp_all add: scaled_X_def INT_MAX_def)
  show ?thesis
    unfolding stable_square [OF h(1,2,2,3,3)] gram_of_scaled c
    by (simp add: identity_two big_plus_stability round_double_zero)
qed

section \<open>The claims\<close>

text \<open>
  Claim C1, as stated, fails beyond the range of \<^verbatim>\<open>int\<close>: the code keeps the column counts
  in the \<^verbatim>\<open>int\<close> variables \<open>M\<close> and \<open>N\<close>. For \<open>X\<close> with \<open>2^32\<close> columns (of dimension 0, so
  that it has no coefficient) \<open>M\<close> is 0, and with a \<open>Y\<close> of one column \<open>gram_matrix\<close> returns
  a \<open>0 \<times> 1\<close> matrix, not one with \<open>2^32\<close> rows.
\<close>

theorem gram_matrix_narrows_columns_counterexample:
  "wf_matrix wide_X \<and> wf_matrix point_Y \<and> rows wide_X = rows point_Y \<and>
   cols wide_X = 4294967296 \<and> to_int (cols wide_X) = 0 \<and>
   gram_matrix zero_mem (linear_kernel_k (Finite 0)) wide_X point_Y =
     Inr \<lparr>rows = 0, cols = 1, coeffs = []\<rparr> \<and>
   rows \<lparr>rows = 0, cols = 1, coeffs = [] :: double list\<rparr> \<noteq> cols wide_X"
  by (simp add: wf_matrix_def wide_X_def point_Y_def gram_matrix_def to_int_def
      MatrixXd_alloc_def and_then_def)

text \<open>
  Claim C1, amended. For matrices \<open>X\<close> (\<open>d \<times> M\<close>) and \<open>Y\<close> (\<open>d \<times> N\<close>) with the same number
  of rows, and column counts that fit the \<^verbatim>\<open>int\<close> variables \<open>M\<close> and \<open>N\<close>, \<open>gram_matrix\<close>
  returns an \<open>M \<times> N\<close> matrix whose coefficient \<open>(i, j)\<close> is the bound kernel applied to
  column \<open>i\<close> of \<open>X\<close> and column \<open>j\<close> of \<open>Y\<close>, for every \<open>i < M\<close> and \<open>j < N\<close>, whatever
  the kernel and whatever the fresh storage held.
\<close>

theorem gram_matrix_entries:
  assumes "wf_matrix X" "wf_matrix Y" "rows X = rows Y"
    and "cols X \<le> INT_MAX" "cols Y \<le> INT_MAX"
  shows "\<exists>G. gram_matrix mem kf X Y = Inr G \<and> rows G = cols X \<and> cols G = cols Y \<and>
           wf_matrix G \<and>
           (\<forall>i<cols X. \<forall>j<cols Y.
              coeff G (int i) (int j) = Inr (kf (column X i) (column Y j)))"
proof -
  let ?G = "gram_of kf X Y"
  have "coeff ?G (int i) (int j) = Inr (kf (column X i) (column Y j))"
    if "i < cols X" "j < cols Y" for i j
    using that gram_of_entry [OF that, of kf] assms(1,2)
    by (simp add: coeff_def gram_of_shape entry_def stored_column_eq)
  then show ?thesis
    using gram_matrix_eq [OF assms(3,4,5), of mem kf]
    by (simp add: gram_of_shape wf_matrix_def)
qed

text \<open>
  Claim C1, witness: the amended theorem at a \<open>1 \<times> 1\<close> and a \<open>1 \<times> 3\<close> matrix.
\<close>

theorem gram_matrix_entries_witness:
  "wf_matrix row_X \<and> wf_matrix row_Y \<and> rows row_X = rows row_Y \<and>
   cols row_X \<le> INT_MAX \<and> cols row_Y \<le> INT_MAX \<and>
   gram_matrix zero_mem (linear_kernel_k (Finite 0)) row_X row_Y =
     Inr \<lparr>rows = 1, cols = 3, coeffs = [Finite 2, Finite 3, Finite 1]\<rparr> \<and>
   (\<exists>G. gram_matrix zero_mem (linear_kernel_k (Finite 0)) row_X row_Y = Inr G \<and>
      rows G = cols row_X \<and> cols G = cols row_Y \<and> wf_matrix G \<and>
      (\<forall>i<cols row_X. \<forall>j<cols row_Y.
         coeff G (int i) (int j) =
           Inr (linear_kernel_k (Finite 0) (column row_X i) (column row_Y j))))"
proof -
  have h: "wf_matrix row_X" "wf_matrix row_Y" "rows row_X = rows row_Y"
    "cols row_X \<le> INT_MAX" "cols row_Y \<le> INT_MAX"
    by (simp_all add: wf_matrix_def row_X_def row_Y_def INT_MAX_def)
  have g: "gram_matrix zero_mem (linear_kernel_k (Finite 0)) row_X row_Y =
      Inr \<lparr>rows = 1, cols = 3, coeffs = [Finite 2, Finite 3, Finite 1]\<rparr>"
    by (simp add: gram_matrix_eq [OF h(3,4,5)] gram_of_rows)
  show ?thesis
    using h g gram_matrix_entries [OF h, of zero_mem "linear_kernel_k (Finite 0)"] by blast
qed

text \<open>
  Claim C2. The claim says that with equal numbers of rows neither operation fails.
  \<open>gram_matrix\<close> does not (\<open>gram_matrix_total\<close>), and \<open>InvalidArgument\<close> is raised
  exactly on different numbers of rows (\<open>gram_matrix_InvalidArgument_iff\<close>,
  \<open>stable_mismatch\<close>). But with \<open>X\<close> holding one sample and \<open>Y\<close> none, both of
  dimension 1, \<open>gram_matrix_stable\<close> gets the \<open>1 \<times> 0\<close> Gram matrix and then reads
  outside it.
\<close>

theorem gram_matrix_stable_fails_with_equal_rows:
  "rows row_X = rows empty_X \<and>
   gram_matrix mem kf row_X empty_X = Inr \<lparr>rows = 1, cols = 0, coeffs = []\<rparr> \<and>
   gram_matrix_stable mem kf row_X empty_X = Inl OutOfBounds"
proof -
  have h: "rows row_X = rows empty_X" "cols row_X \<le> INT_MAX" "cols empty_X \<le> INT_MAX"
    "cols row_X * cols empty_X = 0" and c: "cols row_X = 1"
    by (simp_all add: row_X_def empty_X_def INT_MAX_def)
  have "gram_of kf row_X empty_X = \<lparr>rows = 1, cols = 0, coeffs = []\<rparr>"
    by (simp add: gram_of_def row_X_def empty_X_def)
  then show ?thesis
    using h(1) c stable_empty [OF h, of mem kf] gram_matrix_eq [OF h(1,2,3), of mem kf] by simp
qed

text \<open>
  Claim C3, as stated, fails: the sum of a diagonal coefficient and \<^verbatim>\<open>1e-3\<close> is rounded
  to a double. For two orthogonal vectors of length \<open>2^30\<close> and the linear kernel with
  \<open>c = 0\<close> the diagonal coefficients of the Gram matrix are \<open>2^60\<close>, and
  \<open>gram_matrix_stable\<close> returns them as they are, not increased by \<open>1/1000\<close>.
\<close>

theorem gram_matrix_stable_large_diagonal_counterexample:
  "gram_matrix zero_mem (linear_kernel_k (Finite 0)) scaled_X scaled_X =
     Inr \<lparr>rows = 2, cols = 2,
          coeffs = [Finite 1152921504606846976, Finite 0, Finite 0, Finite 1152921504606846976]\<rparr> \<and>
   gram_matrix_stable zero_mem (linear_kernel_k (Finite 0)) scaled_X scaled_X =
     Inr \<lparr>rows = 2, cols = 2,
          coeffs = [Finite 1152921504606846976, Finite 0, Finite 0, Finite 1152921504606846976]\<rparr> \<and>
   Finite 1152921504606846976 \<noteq> Finite (1152921504606846976 + 1 / 1000)"
proof -
  have h: "rows scaled_X = rows scaled_X" "cols scaled_X \<le> INT_MAX"
    by (simp_all add: scaled_X_def INT_MAX_def)
  show ?thesis
    by (simp add: gram_matrix_eq [OF h(1,2,2)] gram_of_scaled stable_scaled)
qed

text \<open>
  Claim C3, amended. With the same number of rows, more than one column in both \<open>X\<close>
  and \<open>Y\<close>, column counts that fit \<^verbatim>\<open>int\<close> and a kernel that returns doubles,
  \<open>gram_matrix_stable\<close> returns the Gram matrix with each coefficient of the main
  diagonal replaced by its double-precision sum with \<^verbatim>\<open>1e-3\<close>, and every other
  coefficient unchanged. For the two orthonormal vectors and the linear kernel with
  \<open>c = 0\<close>, the Gram matrix is the identity and the stabilised one has the double
  \<^verbatim>\<open>1.001\<close> on its diagonal.
\<close>

theorem gram_matrix_stable_adds_to_diagonal:
  "(rows X = rows Y \<and> 1 < cols X \<and> cols X \<le> INT_MAX \<and> 1 < cols Y \<and> cols Y \<le> INT_MAX \<and>
    (\<forall>x y. is_double (kf x y)) \<longrightarrow>
     (\<exists>G S. gram_matrix mem kf X Y = Inr G \<and> gram_matrix_stable mem kf X Y = Inr S \<and>
        rows S = cols X \<and> cols S = cols Y \<and> length (coeffs S) = cols X * cols Y \<and>
        (\<forall>i<cols X. \<forall>j<cols Y. entry S i j =
            (if i = j then entry G i j + round_double (1 / 1000) else entry G i j)))) \<and>
   gram_matrix mem (kernel_k c_pow (linear_kernel (Finite 0))) orthonormal_X orthonormal_X =
     Inr \<lparr>rows = 2, cols = 2, coeffs = [Finite 1, Finite 0, Finite 0, Finite 1]\<rparr> \<and>
   gram_matrix_stable mem (kernel_k c_pow (linear_kernel (Finite 0))) orthonormal_X orthonormal_X =
     Inr \<lparr>rows = 2, cols = 2,
          coeffs = [round_double (1001 / 1000), Finite 0, Finite 0, round_double (1001 / 1000)]\<rparr>"
proof (intro conjI impI)
  assume a: "rows X = rows Y \<and> 1 < cols X \<and> cols X \<le> INT_MAX \<and> 1 < cols Y \<and> cols Y \<le> INT_MAX \<and>
    (\<forall>x y. is_double (kf x y))"
  then have h: "rows X = rows Y" "cols X \<le> INT_MAX" "cols Y \<le> INT_MAX" "1 < cols X" "1 < cols Y"
    "\<forall>x y. is_double (kf x y)"
    by simp_all
  show "\<exists>G S. gram_matrix mem kf X Y = Inr G \<and> gram_matrix_stable mem kf X Y = Inr S \<and>
        rows S = cols X \<and> cols S = cols Y \<and> length (coeffs S) = cols X * cols Y \<and>
        (\<forall>i<cols X. \<forall>j<cols Y. entry S i j =
            (if i = j then entry G i j + round_double (1 / 1000) else entry G i j))"
    using stable_square_entry [OF h, of mem] gram_matrix_eq [OF h(1,2,3), of mem kf] by auto
next
  have h: "rows orthonormal_X = rows orthonormal_X" "cols orthonormal_X \<le> INT_MAX"
    by (simp_all add: orthonormal_X_def INT_MAX_def)
  show "gram_matrix mem (kernel_k c_pow (linear_kernel (Finite 0))) orthonormal_X orthonormal_X =
     Inr \<lparr>rows = 2, cols = 2, coeffs = [Finite 1, Finite 0, Finite 0, Finite 1]\<rparr>"
    unfolding kernel_k_linear by (simp add: gram_matrix_eq [OF h(1,2,2)] gram_of_orthonormal)
  show "gram_matrix_stable mem (kernel_k c_pow (linear_kernel (Finite 0))) orthonormal_X orthonormal_X =
     Inr \<lparr>rows = 2, cols = 2,
          coeffs = [round_double (1001 / 1000), Finite 0, Finite 0, round_double (1001 / 1000)]\<rparr>"
    unfolding kernel_k_linear by (rule stable_orthonormal)
qed

text \<open>
  Claim C3, witness: the amended theorem at the two orthonormal vectors and the linear
  kernel.
\<close>

theorem gram_matrix_stable_adds_to_diagonal_witness:
  "rows orthonormal_X = rows orthonormal_X \<and> 1 < cols orthonormal_X \<and>
   cols orthonormal_X \<le> INT_MAX \<and> (\<forall>x y. is_double (linear_kernel_k (Finite 0) x y)) \<and>
   (\<exists>G S. gram_matrix zero_mem (linear_kernel_k (Finite 0)) orthonormal_X orthonormal_X = Inr G \<and>
      gram_matrix_stable zero_mem (linear_kernel_k (Finite 0)) orthonormal_X orthonormal_X = Inr S \<and>
      rows S = 2 \<and> cols S = 2 \<and> length (coeffs S) = 4 \<and>
      (\<forall>i<2. \<forall>j<2. entry S i j =
          (if i = j then entry G i j + round_double (1 / 1000) else entry G i j)))"
proof -
  have h: "rows orthonormal_X = rows orthonormal_X \<and> 1 < cols orthonormal_X \<and>
      cols orthonormal_X \<le> INT_MAX \<and> 1 < cols orthonormal_X \<and> cols orthonormal_X \<le> INT_MAX \<and>
      (\<forall>x y. is_double (linear_kernel_k (Finite 0) x y))"
    and c: "cols orthonormal_X = 2"
    by (simp_all add: orthonormal_X_def INT_MAX_def is_double_linear_kernel)
  show ?thesis
    using h gram_matrix_stable_adds_to_diagonal [of orthonormal_X orthonormal_X
        "linear_kernel_k (Finite 0)" zero_mem]
    unfolding c by simp
qed

text \<open>
  Claim C4. When the Gram matrix is \<open>1 \<times> 1\<close>, \<open>gram_matrix_stable\<close> returns its
  coefficient plus \<^verbatim>\<open>1e-3\<close> if the coefficient is 1, and the coefficient unchanged
  otherwise.
\<close>

theorem gram_matrix_stable_one_by_one:
  assumes "rows X = rows Y" "cols X = 1" "cols Y = 1"
  shows "\<exists>g. gram_matrix mem kf X Y = Inr \<lparr>rows = 1, cols = 1, coeffs = [g]\<rparr> \<and>
           gram_matrix_stable mem kf X Y =
             Inr \<lparr>rows = 1, cols = 1,
                  coeffs = [if g = 1 then g + round_double (1 / 1000) else g]\<rparr>"
  using assms stable_one_by_one [OF assms, of mem kf]
    gram_matrix_eq [OF assms(1) one_le_INT_MAX [OF assms(2)] one_le_INT_MAX [OF assms(3)], of mem kf]
  by (simp add: gram_of_def)

text \<open>
  Claim C4, witness: the theorem at a single one-dimensional sample, where the
  coefficient is 1 and the result the double \<^verbatim>\<open>1.001\<close>.
\<close>

theorem gram_matrix_stable_one_by_one_witness:
  "rows row_X = rows row_X \<and> cols row_X = 1 \<and>
   Finite 1 + round_double (1 / 1000) = round_double (1001 / 1000) \<and>
   (\<exists>g. gram_matrix zero_mem (linear_kernel_k (Finite 0)) row_X row_X =
           Inr \<lparr>rows = 1, cols = 1, coeffs = [g]\<rparr> \<and>
        gram_matrix_stable zero_mem (linear_kernel_k (Finite 0)) row_X row_X =
           Inr \<lparr>rows = 1, cols = 1,
                coeffs = [if g = 1 then g + round_double (1 / 1000) else g]\<rparr>)"
proof -
  have h: "rows row_X = rows row_X" "cols row_X = 1"
    by (simp_all add: row_X_def)
  show ?thesis
    using h one_plus_stability
      gram_matrix_stable_one_by_one [OF h(1) h(2) h(2), of zero_mem "linear_kernel_k (Finite 0)"]
    by simp
qed

text \<open>
  Claim C5. When the Gram matrix is a row or a column with more than one coefficient
  (and the column counts fit \<^verbatim>\<open>int\<close>): if its last coefficient is 1,
  \<open>gram_matrix_stable\<close> adds \<^verbatim>\<open>1e-3\<close> to the last coefficient and leaves every other one
  as it is; otherwise it returns the Gram matrix itself.
\<close>

theorem gram_matrix_stable_vector:
  assumes "rows X = rows Y" "cols X \<le> INT_MAX" "cols Y \<le> INT_MAX"
    and "cols X = 1 \<or> cols Y = 1" "1 < cols X * cols Y"
  shows "\<exists>G S. gram_matrix mem kf X Y = Inr G \<and> gram_matrix_stable mem kf X Y = Inr S \<and>
           rows G = cols X \<and> cols G = cols Y \<and> length (coeffs G) = cols X * cols Y \<and>
           rows S = rows G \<and> cols S = cols G \<and> length (coeffs S) = length (coeffs G) \<and>
           (\<forall>idx<length (coeffs G). coeffs S ! idx =
              (if idx = length (coeffs G) - 1 \<and> last (coeffs G) = 1
               then last (coeffs G) + round_double (1 / 1000)
               else coeffs G ! idx)) \<and>
           (last (coeffs G) \<noteq> 1 \<longrightarrow> S = G)"
  unfolding stable_vector [OF assms] gram_matrix_eq [OF assms(1,2,3)]
  by (simp add: gram_of_shape nth_list_update)

text \<open>
  Claim C5, witness: the theorem at a \<open>1 \<times> 3\<close> Gram matrix that ends in 1.
\<close>

theorem gram_matrix_stable_vector_witness:
  "rows row_X = rows row_Y \<and> cols row_X \<le> INT_MAX \<and> cols row_Y \<le> INT_MAX \<and>
   (cols row_X = 1 \<or> cols row_Y = 1) \<and> 1 < cols row_X * cols row_Y \<and>
   (\<exists>G S. gram_matrix zero_mem (linear_kernel_k (Finite 0)) row_X row_Y = Inr G \<and>
      gram_matrix_stable zero_mem (linear_kernel_k (Finite 0)) row_X row_Y = Inr S \<and>
      coeffs G = [Finite 2, Finite 3, Finite 1] \<and>
      coeffs S = [Finite 2, Finite 3, round_double (1001 / 1000)])"
proof -
  have h: "rows row_X = rows row_Y" "cols row_X \<le> INT_MAX" "cols row_Y \<le> INT_MAX"
    "cols row_X = 1 \<or> cols row_Y = 1" "1 < cols row_X * cols row_Y"
    by (simp_all add: row_X_def row_Y_def INT_MAX_def)
  have g: "gram_matrix zero_mem (linear_kernel_k (Finite 0)) row_X row_Y =
      Inr \<lparr>rows = 1, cols = 3, coeffs = [Finite 2, Finite 3, Finite 1]\<rparr>"
    by (simp add: gram_matrix_eq [OF h(1,2,3)] gram_of_rows)
  from gram_matrix_stable_vector [OF h, of zero_mem "linear_kernel_k (Finite 0)"]
  obtain S where S: "gram_matrix_stable zero_mem (linear_kernel_k (Finite 0)) row_X row_Y = Inr S"
    "length (coeffs S) = 3"
    "\<forall>idx<3. coeffs S ! idx =
       (if idx = 2 then Finite 1 + round_double (1 / 1000) else [Finite 2, Finite 3, Finite 1] ! idx)"
    unfolding g by (auto simp add: one_double_def)
  have "coeffs S = [Finite 2, Finite 3, round_double (1001 / 1000)]"
    using S(2,3) one_plus_stability
    by (intro nth_equalityI) (auto simp add: less_Suc_eq numeral_3_eq_3)
  then show ?thesis using h g S(1) by simp
qed

text \<open>
  Claim C6, as stated, fails, and not only at \<open>s = 0\<close>: for the bandwidth \<open>s = 2^-600\<close>
  the product \<open>2 * s * s\<close> underflows to zero, the code divides zero by zero, and the
  Gaussian kernel of \<open>x = [1]\<close> with itself is NaN, not 1.
\<close>

theorem gaussian_kernel_self_small_bandwidth_counterexample:
  "gaussian_kernel_k (Finite (1 / 2 ^ 600)) [Finite 1] [Finite 1] = NaN \<and>
   gaussian_kernel_k (Finite (1 / 2 ^ 600)) [Finite 1] [Finite 1] \<noteq> 1 \<and>
   gaussian_kernel_k (Finite 0) [Finite 1] [Finite 1] = NaN"
proof -
  have ssd: "square_sum_diff [Finite 1] [Finite 1] = Finite 0"
    using square_sum_diff_self [of "[1]"] by simp
  have num: "Finite (- 1) * Finite 0 = Finite 0"
    by (simp add: round_double_zero)
  have den: "Finite 2 * Finite (1 / 2 ^ 600) * Finite (1 / 2 ^ 600) = Finite 0"
    by (simp only: times_double.simps round_twice_tiny round_underflow)
  have den0: "Finite 2 * Finite 0 * Finite 0 = Finite 0"
    by (simp add: round_double_zero)
  have "gaussian_kernel_k (Finite (1 / 2 ^ 600)) [Finite 1] [Finite 1] =
      dexp (Finite 0 / Finite 0)"
    by (simp only: gaussian_kernel_k_def ssd num den)
  moreover have "gaussian_kernel_k (Finite 0) [Finite 1] [Finite 1] = dexp (Finite 0 / Finite 0)"
    by (simp only: gaussian_kernel_k_def ssd num den0)
  moreover have "dexp (Finite 0 / Finite 0) = NaN" by simp
  ultimately show ?thesis by (simp add: one_double_def)
qed

text \<open>
  Claim C6, amended. For every vector \<open>x\<close> of finite numbers and every bandwidth \<open>s\<close>
  for which the double-precision product \<open>2 * s * s\<close> is neither zero nor NaN, the
  Gaussian kernel of \<open>x\<close> with itself is 1.
\<close>

theorem gaussian_kernel_self:
  assumes "Finite 2 * s * s \<noteq> Finite 0" "Finite 2 * s * s \<noteq> NaN"
  shows "gaussian_kernel_k s (map Finite xs) (map Finite xs) = 1"
proof -
  have num: "Finite (- 1) * Finite 0 = Finite 0"
    by (simp add: round_double_zero)
  have "Finite 0 / (Finite 2 * s * s) = Finite 0"
    using assms by (cases "Finite 2 * s * s") (simp_all add: round_double_zero)
  then have "gaussian_kernel_k s (map Finite xs) (map Finite xs) = dexp (Finite 0)"
    by (simp only: gaussian_kernel_k_def square_sum_diff_self num)
  then show ?thesis
    by (simp add: one_double_def round_small_numbers)
qed

text \<open>
  Claim C6, witness: the amended theorem at \<open>s = 3\<close> and \<open>x = [2, - 7]\<close>, where
  \<open>2 * s * s\<close> is 18.
\<close>

theorem gaussian_kernel_self_witness:
  "Finite 2 * Finite 3 * Finite 3 \<noteq> Finite 0 \<and> Finite 2 * Finite 3 * Finite 3 \<noteq> NaN \<and>
   gaussian_kernel_k (Finite 3) [Finite 2, Finite (- 7)] [Finite 2, Finite (- 7)] = 1"
proof -
  have d: "Finite 2 * Finite 3 * Finite 3 = Finite 18"
    by (simp add: round_small_numbers)
  show ?thesis
    using gaussian_kernel_self [of "Finite 3" "[2, - 7]"] unfolding d by simp
qed

text \<open>
  Claim C7. For every matrix \<open>X\<close> (with a column count that fits \<^verbatim>\<open>int\<close>) and each of the
  three kernels, with any hyperparameters, \<open>gram_matrix\<close> of \<open>X\<close> with itself is
  symmetric: the coefficients \<open>(i, j)\<close> and \<open>(j, i)\<close> are the same.
\<close>

theorem gram_matrix_symmetric:
  assumes "cols X \<le> INT_MAX"
  shows "\<exists>G. gram_matrix mem (kernel_k c_pow kern) X X = Inr G \<and> rows G = cols X \<and>
      cols G = cols X \<and>
      (\<forall>i<cols X. \<forall>j<cols X. entry G i j = entry G j i \<and>
          coeff G (int i) (int j) = coeff G (int j) (int i))"
proof -
  let ?G = "gram_of (kernel_k c_pow kern) X X"
  have "entry ?G i j = entry ?G j i" if "i < cols X" "j < cols X" for i j
    using gram_of_entry [OF that] gram_of_entry [OF that(2,1)] kernel_k_commute by simp
  moreover have "coeff ?G (int i) (int j) = Inr (entry ?G i j)" if "i < cols X" "j < cols X" for i j
    using that by (simp add: coeff_def entry_def gram_of_shape)
  ultimately show ?thesis
    using gram_matrix_eq [OF refl assms assms, of mem "kernel_k c_pow kern"]
    by (simp add: gram_of_shape)
qed

text \<open>
  Claim C7, witness: the theorem at the two orthonormal vectors and a Gaussian kernel.
\<close>

theorem gram_matrix_symmetric_witness:
  "cols orthonormal_X \<le> INT_MAX \<and>
   (\<exists>G. gram_matrix zero_mem (kernel_k (\<lambda>b d. b) (gaussian_kernel (Finite 1))) orthonormal_X
          orthonormal_X = Inr G \<and>
      rows G = 2 \<and> cols G = 2 \<and> entry G 0 1 = entry G 1 0)"
proof -
  have c: "cols orthonormal_X = 2" and h: "cols orthonormal_X \<le> INT_MAX"
    by (simp_all add: orthonormal_X_def INT_MAX_def)
  show ?thesis
    using h gram_matrix_symmetric [OF h, of zero_mem "\<lambda>b d. b" "gaussian_kernel (Finite 1)"]
    unfolding c by auto
qed

text \<open>
  Claim C8, as stated, fails: the sum is rounded. For \<open>x = y = [1]\<close> and the bias
  \<open>c = 2^-60\<close> the linear kernel returns 1, which is not \<open>1 * 1 + 2^-60\<close>.
\<close>

theorem linear_kernel_rounds_counterexample:
  "linear_kernel_k (Finite (1 / 2 ^ 60)) [Finite 1] [Finite 1] = Finite 1 \<and>
   Finite 1 \<noteq> Finite (1 * 1 + 1 / 2 ^ 60)"
proof -
  have "dot [Finite 1] [Finite 1] = Finite 1"
    by (simp add: dot_def zero_double_def round_small_numbers)
  then have k: "linear_kernel_k (Finite (1 / 2 ^ 60)) [Finite 1] [Finite 1] =
      round_double (1 + 1 / 2 ^ 60)"
    by (simp only: linear_kernel_k_def plus_double.simps)
  have "linear_kernel_k (Finite (1 / 2 ^ 60)) [Finite 1] [Finite 1] = Finite 1"
    unfolding k by (rule round_one_plus_tiny)
  moreover have "Finite 1 \<noteq> Finite (1 * 1 + 1 / 2 ^ 60)" by simp
  ultimately show ?thesis by (rule conjI)
qed

text \<open>
  Claim C8, amended. For vectors \<open>x\<close> and \<open>y\<close> of finite numbers and of the same length
  and a finite bias \<open>c\<close>: when every sum of some of the products \<open>x\<^sub>i * y\<^sub>i\<close> (in
  particular each product and each partial sum, in whatever order they are added) and
  the final sum with \<open>c\<close> are doubles, so that no operation rounds, the linear kernel
  returns exactly the dot product plus the bias.
\<close>

theorem linear_kernel_is_dot_plus_c:
  assumes "length xs = length ys"
    and "\<forall>A\<subseteq>{..<length xs}. representable (\<Sum>i\<in>A. xs ! i * ys ! i)"
    and "representable ((\<Sum>i<length xs. xs ! i * ys ! i) + c)"
  shows "kernel_k c_pow (linear_kernel (Finite c)) (map Finite xs) (map Finite ys) =
           Finite ((\<Sum>i<length xs. xs ! i * ys ! i) + c)"
proof -
  have p: "\<forall>i<length xs. representable (xs ! i * ys ! i)"
  proof (intro allI impI)
    fix i assume "i < length xs"
    then have "{i} \<subseteq> {..<length xs}" by simp
    then have "representable (\<Sum>k\<in>{i}. xs ! k * ys ! k)" using assms(2) by blast
    then show "representable (xs ! i * ys ! i)" by simp
  qed
  have s: "\<forall>n\<le>length xs. representable (\<Sum>i<n. xs ! i * ys ! i)"
  proof (intro allI impI)
    fix n assume "n \<le> length xs"
    then have "{..<n} \<subseteq> {..<length xs}" by simp
    then show "representable (\<Sum>i<n. xs ! i * ys ! i)" using assms(2) by blast
  qed
  show ?thesis
    using assms(3) by (simp add: linear_kernel_k_def dot_exact [OF assms(1) p s] representable_def)
qed

text \<open>
  Claim C8, witness: \<open>[1, 2] \<cdot> [3, 4] + 5 = 16\<close>; the sums of some of the products are 0, 3,
  8 and 11, all of them doubles, as 16 is.
\<close>

theorem linear_kernel_is_dot_plus_c_witness:
  "length [1, 2 :: real] = length [3, 4 :: real] \<and>
   representable 0 \<and> representable 3 \<and> representable 8 \<and> representable 11 \<and>
   representable 16 \<and>
   kernel_k (\<lambda>b d. b) (linear_kernel (Finite 5)) [Finite 1, Finite 2] [Finite 3, Finite 4] = Finite 16"
proof -
  have r: "representable 0" "representable 3" "representable 8" "representable 11"
    "representable 16"
    by (simp_all add: representable_def round_double_zero round_small_numbers)
  have two: "{..<length [1, 2 :: real]} = {0, 1}" by auto
  have sub: "A = {} \<or> A = {0} \<or> A = {1} \<or> A = {0, 1}" if "A \<subseteq> {0, 1::nat}" for A
    using that by auto
  have h2: "\<forall>A\<subseteq>{..<length [1, 2 :: real]}. representable (\<Sum>i\<in>A. [1, 2] ! i * [3, 4 :: real] ! i)"
  proof (intro allI impI)
    fix A :: "nat set" assume "A \<subseteq> {..<length [1, 2 :: real]}"
    then have "A \<subseteq> {0, 1}" unfolding two .
    from sub [OF this] show "representable (\<Sum>i\<in>A. [1, 2] ! i * [3, 4 :: real] ! i)"
      using r by auto
  qed
  have v: "(\<Sum>i<length [1, 2 :: real]. [1, 2] ! i * [3, 4 :: real] ! i) + 5 = 16"
    by (simp add: two)
  have h3: "representable ((\<Sum>i<length [1, 2 :: real]. [1, 2] ! i * [3, 4 :: real] ! i) + 5)"
    unfolding v by (rule r(5))
  show ?thesis
    using r linear_kernel_is_dot_plus_c [of "[1, 2]" "[3, 4]" 5 "\<lambda>b d. b", OF _ h2 h3]
    unfolding v by simp
qed


text \<open>
  Claim C10. The claim says that no access of \<open>gram_matrix_stable\<close> leaves the matrix,
  also for matrices without columns. With \<open>X\<close> holding no sample and \<open>Y\<close> one sample,
  both of dimension 1, the Gram matrix is \<open>0 \<times> 1\<close>, of size 0; it has one column, so
  the condition of the third branch reads the coefficient at index \<open>0 - 1\<close>, outside
  the matrix.
\<close>

theorem gram_matrix_stable_reads_out_of_bounds:
  "rows empty_X = rows row_X \<and>
   gram_matrix mem kf empty_X row_X = Inr \<lparr>rows = 0, cols = 1, coeffs = []\<rparr> \<and>
   int (msize \<lparr>rows = 0, cols = 1, coeffs = []\<rparr>) - 1 = - 1 \<and>
   coeff_at \<lparr>rows = 0, cols = 1, coeffs = []\<rparr> (- 1) = Inl OutOfBounds \<and>
   gram_matrix_stable mem kf empty_X row_X = Inl OutOfBounds"
proof -
  have h: "rows empty_X = rows row_X" "cols empty_X \<le> INT_MAX" "cols row_X \<le> INT_MAX"
    "cols empty_X * cols row_X = 0" and c: "cols row_X = 1"
    by (simp_all add: row_X_def empty_X_def INT_MAX_def)
  have "gram_of kf empty_X row_X = \<lparr>rows = 0, cols = 1, coeffs = []\<rparr>"
    by (simp add: gram_of_def row_X_def empty_X_def)
  then show ?thesis
    using h(1) c stable_empty [OF h, of mem kf] gram_matrix_eq [OF h(1,2,3), of mem kf]
    by (simp add: coeff_at_def msize_def)
qed

end
